(* ===== verification/Prelude.thy ===== *)
theory Prelude
  imports Complex_Main "HOL-Library.Sublist"
begin

text \<open>
  Shared vocabulary of the development: the names of the model's types, the
  collections of facts the component theories feed, and generic lemmas on
  lists and strings (Python's left-justified padding, prefixes of append-only
  lists) that several components use.
\<close>

section \<open>Types of the model\<close>

text \<open>
  A Python \<open>float\<close> is modelled as an exact real (rounding of binary floating
  point is abstracted away); Python strings as \<open>string\<close> (lists of 8-bit
  characters); a CSV record as the list of its fields.
\<close>

type_synonym pyfloat = real
type_synonym label = string
type_synonym timestamp = string
type_synonym csv_row = "string list"

section \<open>Fact collections\<close>

named_theorems proc_simps "equations of the processor's operations on each branch"
named_theorems report_simps "equations of the reporter's computations"
named_theorems str_simps "facts about the string conversions"

section \<open>Python's str.ljust\<close>

text \<open>
  \<open>"{:<25}".format(s)\<close> left-justifies \<open>s\<close> in a field of width 25: it pads on
  the right with spaces and never truncates.
\<close>

definition ljust :: "nat \<Rightarrow> string \<Rightarrow> string" where
  "ljust w s = s @ replicate (w - length s) CHR '' ''"

lemma length_ljust [simp]: "length (ljust w s) = max w (length s)"
  by (simp add: ljust_def)

lemma ljust_prefix [simp]: "take (length s) (ljust w s) = s"
  by (simp add: ljust_def)

lemma ljust_long [simp]: "w \<le> length s \<Longrightarrow> ljust w s = s"
  by (simp add: ljust_def)

section \<open>Append-only lists\<close>

text \<open>
  The accumulator's lists only grow; "grows by appending" is the prefix order
  of \<open>HOL.List\<close>.
\<close>

lemma prefix_snoc_iff [simp]: "prefix xs (xs @ [x])"
  by (simp add: prefix_def)

lemma prefix_trans_snoc [intro]: "prefix xs ys \<Longrightarrow> prefix xs (ys @ [y])"
  by (auto simp: prefix_def)

lemma sum_list_filter_partition:
  "sum_list [x \<leftarrow> xs. P x] + sum_list [x \<leftarrow> xs. \<not> P x] = (sum_list xs :: 'a::comm_monoid_add)"
  by (induction xs) (simp_all add: ac_simps)

end
