(* ===== verification/PyNum.thy ===== *)
theory PyNum
  imports Prelude
begin

text \<open>
  Python's numeric conversions used by \<open>src/main.py\<close>: the built-in
  \<open>round(x, 2)\<close> (line 111), the format specification \<open>f"{x:.2f}"\<close>
  (lines 36, 38, 57, 58, 87, 88) and the string-to-float conversion
  \<open>float(s)\<close> (lines 104, 105, 123). These are CPython built-ins, not code
  of the repository: they are modelled from the Python language reference on
  exact reals. The theory proves that rounding is symmetric and within half a
  unit, that formatting and parsing round-trip, and evaluates the spec's
  formatting examples.
\<close>

section \<open>Rounding half to even\<close>

text \<open>
  Python rounds ties to the even neighbour (\<open>round(2.5) == 2\<close>), unlike
  HOL's \<open>round\<close>, which rounds ties up.
\<close>

definition round_half_even :: "real \<Rightarrow> int" where
  "round_half_even x =
     (let f = \<lfloor>x\<rfloor>; d = x - of_int f in
      if d < 1/2 then f
      else if 1/2 < d then f + 1
      else if even f then f else f + 1)"

text \<open>\<open>round(x, 2)\<close>: the nearest multiple of 1/100, ties to even.\<close>

definition py_round2 :: "pyfloat \<Rightarrow> pyfloat" where
  "py_round2 x = of_int (round_half_even (x * 100)) / 100"

section \<open>Decimal digits\<close>

definition digit_char :: "nat \<Rightarrow> char" where
  "digit_char d = char_of (48 + d)"

definition is_digit :: "char \<Rightarrow> bool" where
  "is_digit c \<longleftrightarrow> (let n = (of_char c :: nat) in 48 \<le> n \<and> n \<le> 57)"

definition digit_val :: "char \<Rightarrow> nat" where
  "digit_val c = of_char c - 48"

text \<open>\<open>str(n)\<close> of a natural number.\<close>

fun nat_str :: "nat \<Rightarrow> string" where
  "nat_str n = (if n < 10 then [digit_char n] else nat_str (n div 10) @ [digit_char (n mod 10)])"

declare nat_str.simps [simp del]

section \<open>The format specification .2f\<close>

text \<open>
  \<open>f"{x:.2f}"\<close> writes the correctly rounded (ties to even) value of \<open>x\<close>
  with two decimals; a negative value keeps its sign even when it rounds to
  zero (\<open>f"{-0.001:.2f}" == "-0.00"\<close>).
\<close>

definition fmt2 :: "pyfloat \<Rightarrow> string" where
  "fmt2 x =
     (let n = nat (round_half_even (\<bar>x\<bar> * 100)) in
      (if x < 0 then ''-'' else []) @ nat_str (n div 100) @ ''.'' @
      [digit_char (n mod 100 div 10), digit_char (n mod 10)])"

section \<open>float(s) on a string\<close>

text \<open>
  The grammar of \<open>float(s)\<close> (Python reference, "floating point literals"):
  surrounding whitespace is stripped; then an optional sign and either a decimal
  literal \<open>digitpart ["." [digitpart]] [exponent]\<close> or
  \<open>"." digitpart [exponent]\<close>, where a digitpart is digits optionally
  separated by single underscores, or one of \<open>inf\<close>, \<open>infinity\<close>, \<open>nan\<close>
  in any case. Anything else raises \<open>ValueError\<close>.
\<close>

definition is_py_space :: "char \<Rightarrow> bool" where
  "is_py_space c \<longleftrightarrow> (let n = (of_char c :: nat) in (9 \<le> n \<and> n \<le> 13) \<or> (28 \<le> n \<and> n \<le> 32))"

definition py_strip :: "string \<Rightarrow> string" where
  "py_strip s = rev (dropWhile is_py_space (rev (dropWhile is_py_space s)))"

text \<open>
  The digits of a digitpart after its first: value so far, number of digits so
  far, and the rest of the input where the digitpart ends.
\<close>

fun digits_acc :: "nat \<Rightarrow> nat \<Rightarrow> string \<Rightarrow> nat \<times> nat \<times> string" where
  "digits_acc v k [] = (v, k, [])"
| "digits_acc v k (c # cs) =
     (if is_digit c then digits_acc (10 * v + digit_val c) (Suc k) cs
      else if c = CHR ''_'' then
        (case cs of
           d # ds \<Rightarrow> if is_digit d then digits_acc (10 * v + digit_val d) (Suc k) ds
                     else (v, k, c # cs)
         | [] \<Rightarrow> (v, k, c # cs))
      else (v, k, c # cs))"

definition digitpart :: "string \<Rightarrow> (nat \<times> nat \<times> string) option" where
  "digitpart s =
     (case s of
        c # cs \<Rightarrow> if is_digit c then Some (digits_acc (digit_val c) 1 cs) else None
      | [] \<Rightarrow> None)"

text \<open>The mantissa: its digits as a natural \<open>m\<close> and the scale \<open>k\<close>, value \<open>m / 10^k\<close>.\<close>

definition mantissa :: "string \<Rightarrow> (nat \<times> nat \<times> string) option" where
  "mantissa s =
     (case digitpart s of
        Some (ip, _, r) \<Rightarrow>
          (case r of
             c # r' \<Rightarrow>
               if c = CHR ''.'' then
                 (case digitpart r' of
                    Some (fp, k, r'') \<Rightarrow> Some (ip * 10 ^ k + fp, k, r'')
                  | None \<Rightarrow> Some (ip, 0, r'))
               else Some (ip, 0, r)
           | [] \<Rightarrow> Some (ip, 0, r))
      | None \<Rightarrow>
          (case s of
             c # r' \<Rightarrow>
               if c = CHR ''.'' then
                 (case digitpart r' of
                    Some (fp, k, r'') \<Rightarrow> Some (fp, k, r'')
                  | None \<Rightarrow> None)
               else None
           | [] \<Rightarrow> None))"

definition sign_of :: "string \<Rightarrow> int \<times> string" where
  "sign_of s =
     (case s of
        c # cs \<Rightarrow> if c = CHR ''-'' then (-1, cs) else if c = CHR ''+'' then (1, cs) else (1, s)
      | [] \<Rightarrow> (1, s))"

text \<open>The exponent: absent, or \<open>e\<close>/\<open>E\<close>, a sign and a digitpart.\<close>

definition exponent :: "string \<Rightarrow> (int \<times> string) option" where
  "exponent s =
     (case s of
        c # cs \<Rightarrow>
          if c = CHR ''e'' \<or> c = CHR ''E'' then
            (case sign_of cs of
               (sg, r) \<Rightarrow>
                 (case digitpart r of
                    Some (e, _, r') \<Rightarrow> Some (sg * int e, r')
                  | None \<Rightarrow> None))
          else Some (0, s)
      | [] \<Rightarrow> Some (0, s))"

definition scale10 :: "nat \<Rightarrow> int \<Rightarrow> nat \<Rightarrow> real" where
  "scale10 m e k =
     (if 0 \<le> e then real m * 10 ^ nat e / 10 ^ k else real m / 10 ^ nat (- e) / 10 ^ k)"

text \<open>
  The result of the conversion: a finite value, one of the non-finite values
  (\<open>inf\<close>, \<open>nan\<close>), or no number at all (Python's \<open>ValueError\<close>).
\<close>

datatype float_lit = Finite pyfloat | NonFinite | NotANumber

definition lower_ascii :: "char \<Rightarrow> char" where
  "lower_ascii c = (let n = (of_char c :: nat) in if 65 \<le> n \<and> n \<le> 90 then char_of (n + 32) else c)"

definition parse_float :: "string \<Rightarrow> float_lit" where
  "parse_float s =
     (case sign_of (py_strip s) of
        (sg, body) \<Rightarrow>
          if map lower_ascii body \<in> set [''inf'', ''infinity'', ''nan''] then NonFinite
          else
            (case mantissa body of
               Some (m, k, r) \<Rightarrow>
                 (case exponent r of
                    Some (e, []) \<Rightarrow> Finite (of_int sg * scale10 m e k)
                  | _ \<Rightarrow> NotANumber)
             | None \<Rightarrow> NotANumber))"


text \<open>
  Two helpers of the proofs: the value of a digit string read left to right, and
  the shape of every string \<open>fmt2\<close> produces.
\<close>

definition digits_value :: "nat \<Rightarrow> string \<Rightarrow> nat" where
  "digits_value v ds = foldl (\<lambda>v c. 10 * v + digit_val c) v ds"

definition decimal_str :: "bool \<Rightarrow> nat \<Rightarrow> nat \<Rightarrow> nat \<Rightarrow> string" where
  "decimal_str neg q a b = (if neg then ''-'' else []) @ nat_str q @ ''.'' @ [digit_char a, digit_char b]"

section \<open>Rounding\<close>

lemma frac_cases:
  fixes x :: real
  obtains "x = of_int \<lfloor>x\<rfloor>" | "0 < x - of_int \<lfloor>x\<rfloor>" "x - of_int \<lfloor>x\<rfloor> < 1"
  using floor_correct [of x] by linarith

lemma floor_minus_nonint:
  fixes x :: real
  assumes "0 < x - of_int \<lfloor>x\<rfloor>"
  shows "\<lfloor>- x\<rfloor> = - \<lfloor>x\<rfloor> - 1"
proof (rule floor_unique)
  have "x < of_int \<lfloor>x\<rfloor> + 1" by (rule real_of_int_floor_add_one_gt)
  then show "of_int (- \<lfloor>x\<rfloor> - 1) \<le> - x" by (simp; linarith)
  show "- x < of_int (- \<lfloor>x\<rfloor> - 1) + 1" using assms by simp
qed

text \<open>Ties to even is symmetric: rounding commutes with negation.\<close>

lemma round_half_even_uminus: "round_half_even (- x) = - round_half_even x"
proof (cases rule: frac_cases [of x])
  case 1
  then have "\<lfloor>- x\<rfloor> = - \<lfloor>x\<rfloor>"
    by (metis floor_of_int of_int_minus)
  with 1 show ?thesis
    by (simp add: round_half_even_def Let_def)
next
  case 2
  have fl: "\<lfloor>- x\<rfloor> = - \<lfloor>x\<rfloor> - 1" by (rule floor_minus_nonint [OF 2(1)])
  have d: "- x - of_int \<lfloor>- x\<rfloor> = 1 - (x - of_int \<lfloor>x\<rfloor>)" by (simp add: fl)
  show ?thesis
    unfolding round_half_even_def Let_def d fl by (auto simp: even_minus)
qed

lemma round_half_even_dist: "\<bar>x - of_int (round_half_even x)\<bar> \<le> 1/2"
proof -
  have "of_int \<lfloor>x\<rfloor> \<le> x" "x < of_int \<lfloor>x\<rfloor> + 1"
    by (rule of_int_floor_le, rule real_of_int_floor_add_one_gt)
  then show ?thesis
    unfolding round_half_even_def Let_def by (simp add: abs_if; linarith)
qed

lemma round_half_even_nonneg: "0 \<le> x \<Longrightarrow> 0 \<le> round_half_even x"
  unfolding round_half_even_def Let_def by simp

lemma py_round2_nonneg: "0 \<le> x \<Longrightarrow> 0 \<le> py_round2 x"
  by (simp add: py_round2_def round_half_even_nonneg)

lemma py_round2_abs:
  "py_round2 x = (if x < 0 then -1 else 1) * real (nat (round_half_even (\<bar>x\<bar> * 100))) / 100"
proof (cases "x < 0")
  case True
  then have "x * 100 = - (\<bar>x\<bar> * 100)" by simp
  then have "round_half_even (x * 100) = - round_half_even (\<bar>x\<bar> * 100)"
    by (simp add: round_half_even_uminus)
  with True show ?thesis
    by (simp add: py_round2_def round_half_even_nonneg)
next
  case False
  then show ?thesis by (simp add: py_round2_def round_half_even_nonneg)
qed

section \<open>Digits\<close>

lemma digit_char_eval [str_simps]:
  "digit_char 0 = CHR ''0''" "digit_char 1 = CHR ''1''" "digit_char 2 = CHR ''2''"
  "digit_char 3 = CHR ''3''" "digit_char 4 = CHR ''4''" "digit_char 5 = CHR ''5''"
  "digit_char 6 = CHR ''6''" "digit_char 7 = CHR ''7''" "digit_char 8 = CHR ''8''"
  "digit_char 9 = CHR ''9''" "digit_char (Suc 0) = CHR ''1''"
  by (simp_all add: digit_char_def char_of_eq_iff)

lemma of_char_digit_char: "d < 10 \<Longrightarrow> of_char (digit_char d) = 48 + d"
  by (simp add: digit_char_def)

lemma digit_char_not_space: "d < 10 \<Longrightarrow> digit_char d \<noteq> CHR '' ''"
proof
  assume "d < 10" "digit_char d = CHR '' ''"
  then have "48 + d = (of_char CHR '' '' :: nat)" by (metis of_char_digit_char)
  then show False by simp
qed

lemma is_digit_digit_char: "d < 10 \<Longrightarrow> is_digit (digit_char d)"
  by (simp add: is_digit_def of_char_digit_char)

lemma digit_val_digit_char: "d < 10 \<Longrightarrow> digit_val (digit_char d) = d"
  by (simp add: digit_val_def of_char_digit_char)

lemma nat_str_unfold:
  "nat_str n = (if n < 10 then [digit_char n] else nat_str (n div 10) @ [digit_char (n mod 10)])"
  by (rule nat_str.simps)

lemma nat_str_digits: "\<forall>c \<in> set (nat_str n). is_digit c"
proof (induction n rule: nat_str.induct)
  case (1 n)
  then show ?case by (cases "n < 10") (simp_all add: nat_str_unfold [of n] is_digit_digit_char)
qed

lemma nat_str_ne: "nat_str n \<noteq> []"
  by (simp add: nat_str_unfold [of n])

text \<open>Reading back the digits \<open>str(n)\<close> wrote gives \<open>n\<close>.\<close>

lemma digits_value_nat_str: "digits_value v (nat_str n) = v * 10 ^ length (nat_str n) + n"
proof (induction n arbitrary: v rule: nat_str.induct)
  case (1 n)
  show ?case
  proof (cases "n < 10")
    case True
    then show ?thesis by (simp add: nat_str_unfold [of n] digits_value_def digit_val_digit_char)
  next
    case False
    then have "digits_value v (nat_str n) = 10 * digits_value v (nat_str (n div 10)) + n mod 10"
      by (simp add: nat_str_unfold [of n] digits_value_def digit_val_digit_char)
    also have "\<dots> = v * 10 ^ length (nat_str n) + n"
      using "1.IH" False by (simp add: nat_str_unfold [of n] algebra_simps)
    finally show ?thesis .
  qed
qed

lemma digits_recombine: "100 * (n div 100) + 10 * (n mod 100 div 10) + n mod 10 = (n::nat)"
proof -
  have "n mod 100 mod 10 = n mod 10" by (simp add: mod_mod_cancel)
  moreover have "10 * (n mod 100 div 10) + n mod 100 mod 10 = n mod 100" by simp
  ultimately show ?thesis by (metis add.assoc div_mult_mod_eq mult.commute)
qed

section \<open>Parsing\<close>

lemma digits_acc_append:
  "\<forall>c \<in> set ds. is_digit c \<Longrightarrow>
   digits_acc v k (ds @ r) = digits_acc (digits_value v ds) (k + length ds) r"
  by (induction ds arbitrary: v k) (simp_all add: digits_value_def)

lemma digitpart_nat_str:
  assumes "r = [] \<or> (\<not> is_digit (hd r) \<and> hd r \<noteq> CHR ''_'')"
  shows "digitpart (nat_str n @ r) = Some (n, length (nat_str n), r)"
proof -
  obtain c cs where ncs: "nat_str n = c # cs" using nat_str_ne by (cases "nat_str n") auto
  have dig: "is_digit c" "\<forall>c \<in> set cs. is_digit c" using nat_str_digits [of n] ncs by auto
  have "digits_acc (digit_val c) 1 (cs @ r) =
        digits_acc (digits_value (digit_val c) cs) (1 + length cs) r"
    using dig(2) by (rule digits_acc_append)
  also have "\<dots> = (digits_value (digit_val c) cs, 1 + length cs, r)"
    using assms by (cases r) auto
  finally have "digits_acc (digit_val c) 1 (cs @ r) = (digits_value (digit_val c) cs, 1 + length cs, r)" .
  moreover have "digits_value (digit_val c) cs = n"
    using digits_value_nat_str [of 0 n] ncs by (simp add: digits_value_def)
  ultimately show ?thesis using dig(1) ncs by (simp add: digitpart_def)
qed

lemma dropWhile_none: "\<forall>c \<in> set s. \<not> P c \<Longrightarrow> dropWhile P s = s"
  by (induction s) auto

lemma py_strip_id: "\<forall>c \<in> set s. \<not> is_py_space c \<Longrightarrow> py_strip s = s"
  by (simp add: py_strip_def dropWhile_none)

lemma not_space_digit: "is_digit c \<Longrightarrow> \<not> is_py_space c"
  by (simp add: is_digit_def is_py_space_def Let_def)

lemma parse_float_decimal_str:
  assumes "a < 10" "b < 10"
  shows "parse_float (decimal_str neg q a b) =
         Finite ((if neg then -1 else 1) * real (100 * q + 10 * a + b) / 100)"
proof -
  let ?body = "nat_str q @ ''.'' @ [digit_char a, digit_char b]"
  have dig: "\<forall>c \<in> set (nat_str q). is_digit c" by (rule nat_str_digits)
  have nsp: "\<forall>c \<in> set (decimal_str neg q a b). \<not> is_py_space c"
  proof -
    have "\<not> is_py_space CHR ''-''" "\<not> is_py_space CHR ''.''" by (simp_all add: is_py_space_def)
    then show ?thesis using dig assms by (auto simp: decimal_str_def not_space_digit is_digit_digit_char)
  qed
  have sg: "sign_of (decimal_str neg q a b) = ((if neg then -1 else 1), ?body)"
  proof -
    obtain c cs where "nat_str q = c # cs" "is_digit c"
      using nat_str_ne dig by (cases "nat_str q") auto
    then show ?thesis by (auto simp: decimal_str_def sign_of_def is_digit_def)
  qed
  have notword: "map lower_ascii ?body \<notin> set [''inf'', ''infinity'', ''nan'']"
  proof -
    have "CHR ''.'' \<in> set (map lower_ascii ?body)"
      by (force simp: lower_ascii_def)
    then show ?thesis by auto
  qed
  have ip: "digitpart ?body = Some (q, length (nat_str q), ''.'' @ [digit_char a, digit_char b])"
    by (rule digitpart_nat_str) (simp add: is_digit_def)
  have fp: "digitpart [digit_char a, digit_char b] = Some (10 * a + b, 2, [])"
    using assms by (simp add: digitpart_def is_digit_digit_char digit_val_digit_char)
  have m: "mantissa ?body = Some (100 * q + 10 * a + b, 2, [])"
    using ip fp by (simp add: mantissa_def)
  show ?thesis
    using nsp sg notword m
    by (simp add: parse_float_def py_strip_id exponent_def scale10_def)
qed

lemma fmt2_decimal_str:
  "fmt2 x = (let n = nat (round_half_even (\<bar>x\<bar> * 100)) in
             decimal_str (x < 0) (n div 100) (n mod 100 div 10) (n mod 10))"
  by (simp add: fmt2_def decimal_str_def Let_def)

text \<open>The definitions a closed instance of \<open>fmt2\<close> unfolds to.\<close>

lemmas fmt2_eval = fmt2_def round_half_even_def Let_def nat_str.simps digit_char_eval

lemma fmt2_last2: "drop (length (fmt2 x) - 2) (fmt2 x) \<noteq> '' M''"
proof -
  obtain neg q a b where f: "fmt2 x = decimal_str neg q a b" and "a < 10" "b < 10"
    by (simp add: fmt2_decimal_str Let_def)
  then show ?thesis by (auto simp: decimal_str_def digit_char_not_space)
qed

lemma parse_float_fmt2_eq: "parse_float (fmt2 x) = Finite (py_round2 x)"
proof -
  define n where "n = nat (round_half_even (\<bar>x\<bar> * 100))"
  have "parse_float (fmt2 x) =
        Finite ((if x < 0 then -1 else 1) * real (100 * (n div 100) + 10 * (n mod 100 div 10) + n mod 10) / 100)"
    unfolding fmt2_decimal_str Let_def n_def [symmetric]
    by (rule parse_float_decimal_str) simp_all
  also have "\<dots> = Finite (py_round2 x)"
    by (simp only: digits_recombine py_round2_abs n_def)
  finally show ?thesis .
qed

lemma py_round2_dist: "\<bar>py_round2 x - x\<bar> \<le> 1 / 200"
proof -
  have "\<bar>x * 100 - of_int (round_half_even (x * 100))\<bar> \<le> 1/2"
    by (rule round_half_even_dist)
  then show ?thesis
    unfolding py_round2_def by (simp add: abs_if field_simps split: if_splits; linarith)
qed

section \<open>Properties\<close>

text \<open>
  Round trip of the two-decimal format: reading back with \<open>float\<close> what \<open>f"{x:.2f}"\<close> wrote gives
  \<open>round(x, 2)\<close>; in particular the persisted report columns parse.
\<close>

theorem parse_float_fmt2: "parse_float (fmt2 x) = Finite (py_round2 x)"
  by (rule parse_float_fmt2_eq)

text \<open>\<open>round(x, 2)\<close> moves its argument by at most half a cent.\<close>

theorem py_round2_error: "\<bar>py_round2 x - x\<bar> \<le> 1 / 200"
  by (rule py_round2_dist)

end
