(* ===== verification/Message.thy ===== *)
theory Message
  imports PyNum
begin

text \<open>
  The feed's messages after \<open>json.loads\<close> (\<open>src/main.py\<close> line 102), and
  the two Python operations \<open>on_message\<close> applies to them: the subscript
  \<open>data["c"]\<close> and the conversion \<open>float(...)\<close> (lines 104, 105). Every
  exception these raise is a value of the datatype \<open>py_error\<close>. The theory
  also holds the subscription request \<open>on_open\<close> sends (lines 131-136).
\<close>

section \<open>Decoded JSON values\<close>

text \<open>
  \<open>json.loads\<close> yields dicts, lists, strings, integers (\<open>int\<close>, for a
  number with no fraction or exponent), floats, booleans and \<open>None\<close>. A JSON object is kept as the list of its members in text order:
  \<open>json.loads\<close> builds the dict member by member, so a repeated key keeps its
  last value.
\<close>

datatype jvalue =
    JNull
  | JBool bool
  | JInt int
  | JNum pyfloat
  | JStr string
  | JArr "jvalue list"
  | JObj "(string \<times> jvalue) list"

section \<open>Python exceptions\<close>

text \<open>
  \<open>KeyError\<close> of a missing key, \<open>TypeError\<close> of a subscript or a
  conversion applied to the wrong type, \<open>ValueError\<close> of a string
  \<open>float\<close> does not accept. \<open>NonFiniteValue\<close> marks an input that Python
  accepts as \<open>inf\<close> or \<open>nan\<close>: the model's numbers are exact reals, so the
  model stops there rather than continue with a value it cannot represent.
\<close>

datatype py_error =
    KeyError string
  | TypeError string
  | ValueError string
  | NonFiniteValue string
  | JSONDecodeError string string nat
  | Unrepresentable string
  | ZeroDivisionError string

section \<open>Subscript and conversion\<close>

text \<open>\<open>data[k]\<close>: a dict looks the key up (last binding wins); any other value raises.\<close>

definition py_getitem :: "jvalue \<Rightarrow> string \<Rightarrow> py_error + jvalue" where
  "py_getitem d k =
     (case d of
        JObj kvs \<Rightarrow> (case map_of (rev kvs) k of Some v \<Rightarrow> Inr v | None \<Rightarrow> Inl (KeyError k))
      | JStr _ \<Rightarrow> Inl (TypeError ''string indices must be integers'')
      | JArr _ \<Rightarrow> Inl (TypeError ''list indices must be integers or slices, not str'')
      | JInt _ \<Rightarrow> Inl (TypeError ''object is not subscriptable'')
      | JNum _ \<Rightarrow> Inl (TypeError ''object is not subscriptable'')
      | JBool _ \<Rightarrow> Inl (TypeError ''object is not subscriptable'')
      | JNull \<Rightarrow> Inl (TypeError ''object is not subscriptable''))"

text \<open>\<open>float(v)\<close>: numbers convert (an \<open>int\<close> exactly), \<open>True\<close>/\<open>False\<close> give 1.0/0.0, strings are parsed.\<close>

definition py_float :: "jvalue \<Rightarrow> py_error + pyfloat" where
  "py_float v =
     (case v of
        JInt i \<Rightarrow> Inr (real_of_int i)
      | JNum r \<Rightarrow> Inr r
      | JBool b \<Rightarrow> Inr (if b then 1 else 0)
      | JStr s \<Rightarrow>
          (case parse_float s of
             Finite r \<Rightarrow> Inr r
           | NonFinite \<Rightarrow> Inl (NonFiniteValue s)
           | NotANumber \<Rightarrow> Inl (ValueError s))
      | _ \<Rightarrow> Inl (TypeError ''float() argument must be a string or a real number''))"

text \<open>\<open>float(data[k])\<close>, the expression of lines 104, 105 and 123.\<close>

definition float_field :: "jvalue \<Rightarrow> string \<Rightarrow> py_error + pyfloat" where
  "float_field d k = (case py_getitem d k of Inl e \<Rightarrow> Inl e | Inr v \<Rightarrow> py_float v)"

section \<open>The subscription request\<close>

text \<open>
  \<open>on_open\<close> sends \<open>{"method": "SUBSCRIBE", "params": ["btcusdt@ticker"], "id": 1}\<close>.
\<close>

definition ticker_symbol :: string where
  "ticker_symbol = ''btcusdt''"

definition subscribe_msg :: "string \<Rightarrow> jvalue" where
  "subscribe_msg symbol =
     JObj [(''method'', JStr ''SUBSCRIBE''), (''params'', JArr [JStr (symbol @ ''@ticker'')]),
           (''id'', JInt 1)]"

text \<open>A ticker message as the exchange sends it: price and volume as decimal strings.\<close>

definition ticker :: "string \<Rightarrow> string \<Rightarrow> jvalue" where
  "ticker c v = JObj [(''e'', JStr ''24hrTicker''), (''c'', JStr c), (''v'', JStr v)]"

section \<open>Lemmas\<close>

lemma float_field_Inr_iff:
  "float_field d k = Inr r \<longleftrightarrow> (\<exists>v. py_getitem d k = Inr v \<and> py_float v = Inr r)"
  by (simp add: float_field_def split: sum.splits)

lemma py_getitem_last:
  "py_getitem (JObj (kvs @ [(k, v)])) k = Inr v"
  by (simp add: py_getitem_def)

lemma float_field_ticker:
  "float_field (ticker c v) ''c'' = py_float (JStr c)"
  "float_field (ticker c v) ''v'' = py_float (JStr v)"
  by (simp_all add: float_field_def py_getitem_def ticker_def)

lemma py_float_fmt2 [str_simps]: "py_float (JStr (fmt2 x)) = Inr (py_round2 x)"
  by (simp add: py_float_def parse_float_fmt2_eq)

end
