(* ===== verification/Processor.thy ===== *)
theory Processor
  imports Message
begin

text \<open>
  The state of \<open>TradeDataProcessor\<close> (\<open>src/main.py\<close> lines 8-32) and its
  message handler \<open>on_message\<close> (lines 101-123), split the way the spec
  splits it: the tick normalizer (lines 108-111, the volume delta) and the
  trade classifier and accumulator (lines 113-122). The theory proves the
  handler's behaviour on each branch, the invariant every handled message
  keeps, that the accumulator only grows, and that a run of ticks refines an
  abstract specification: the committed trades are the price changes between
  consecutive ticks, classified by their notional value.
\<close>

section \<open>State\<close>

record processor =
  previous_price :: "pyfloat option"
  prev_v :: "pyfloat option"
  bigTrade :: "pyfloat list"
  smallTrade :: "pyfloat list"
  price :: "pyfloat list"
  csv_file_name :: string
  intervals :: "(label \<times> nat) list"

text \<open>The interval table in the dict's insertion order: label and delay in seconds.\<close>

definition intervals_table :: "(label \<times> nat) list" where
  "intervals_table =
     [(''15 m'', 1 * 20), (''30 m'', 2 * 20), (''1 h'', 3 * 20), (''4 h'', 4 * 20),
      (''8 h'', 5 * 20), (''12 h'', 6 * 20), (''24 h'', 7 * 20), (''2 d'', 8 * 20),
      (''3 d'', 9 * 20), (''5 d'', 10 * 20), (''7 d'', 11 * 20), (''10 d'', 12 * 20),
      (''15 d'', 13 * 20), (''30 d'', 14 * 20)]"

definition init_processor :: processor where
  "init_processor =
     \<lparr>previous_price = None, prev_v = None, bigTrade = [], smallTrade = [], price = [],
      csv_file_name = ''trade_data.csv'', intervals = intervals_table\<rparr>"

section \<open>Tick normalizer\<close>

text \<open>Lines 108-111: no delta on the first sample, else the rounded absolute difference.\<close>

definition normalize_volume :: "pyfloat option \<Rightarrow> pyfloat \<Rightarrow> pyfloat" where
  "normalize_volume pv v = (case pv of None \<Rightarrow> 0 | Some p \<Rightarrow> py_round2 \<bar>p - v\<bar>)"

section \<open>Trade classifier and accumulator\<close>

definition big_trade_threshold :: pyfloat where
  "big_trade_threshold = 100000"

text \<open>
  Lines 113-120: a trade is committed when there is a previous price and the
  new price differs from it; its value \<open>price * volume\<close> goes to
  \<open>bigTrade\<close> from the threshold on, to \<open>smallTrade\<close> below it.
\<close>

definition commit_trade :: "processor \<Rightarrow> pyfloat \<Rightarrow> pyfloat \<Rightarrow> processor" where
  "commit_trade p c vol =
     (if previous_price p \<noteq> None \<and> Some c \<noteq> previous_price p then
        (let tv = c * vol; p' = p\<lparr>price := price p @ [c]\<rparr> in
         if tv \<ge> big_trade_threshold then p'\<lparr>bigTrade := bigTrade p @ [tv]\<rparr>
         else p'\<lparr>smallTrade := smallTrade p @ [tv]\<rparr>)
      else p)"

text \<open>Lines 108-123 once price and volume are parsed.\<close>

definition on_tick :: "processor \<Rightarrow> pyfloat \<Rightarrow> pyfloat \<Rightarrow> processor" where
  "on_tick p c v =
     (let vol = normalize_volume (prev_v p) v;
          p' = commit_trade p c vol
      in p'\<lparr>previous_price := Some c, prev_v := Some v\<rparr>)"

text \<open>
  The whole handler: \<open>float(data["c"])\<close> is evaluated before
  \<open>float(data["v"])\<close>, and either may raise before any field is written.
  Line 123 evaluates \<open>float(data["v"])\<close> a second time, with the same result.
\<close>

definition on_message :: "processor \<Rightarrow> jvalue \<Rightarrow> py_error + processor" where
  "on_message p d =
     (case float_field d ''c'' of
        Inl e \<Rightarrow> Inl e
      | Inr c \<Rightarrow>
          (case float_field d ''v'' of
             Inl e \<Rightarrow> Inl e
           | Inr v \<Rightarrow> Inr (on_tick p c v)))"

text \<open>
  The feed loop of the websocket client: a message whose handler raises is
  reported and dropped, and the loop goes on with the state as it was.
\<close>

definition handle :: "processor \<Rightarrow> jvalue \<Rightarrow> processor" where
  "handle p d = (case on_message p d of Inl _ \<Rightarrow> p | Inr p' \<Rightarrow> p')"

definition feed :: "processor \<Rightarrow> jvalue list \<Rightarrow> processor" where
  "feed p ds = foldl handle p ds"

definition feed_ticks :: "processor \<Rightarrow> (pyfloat \<times> pyfloat) list \<Rightarrow> processor" where
  "feed_ticks p ts = foldl (\<lambda>p (c, v). on_tick p c v) p ts"

section \<open>Abstract specification\<close>

text \<open>
  What the accumulator promises for a sequence of ticks \<open>(price, cumulative volume)\<close>:
  one trade for each tick whose price differs from the tick before it, with
  the rounded absolute volume difference as its size; prices recorded in
  order; trade values split by the threshold.
\<close>

fun trades_of :: "(pyfloat \<times> pyfloat) list \<Rightarrow> (pyfloat \<times> pyfloat) list" where
  "trades_of ((c0, v0) # (c1, v1) # ts) =
     (if c1 \<noteq> c0 then [(c1, py_round2 \<bar>v0 - v1\<bar>)] else []) @ trades_of ((c1, v1) # ts)"
| "trades_of _ = []"

definition notional :: "pyfloat \<times> pyfloat \<Rightarrow> pyfloat" where
  "notional t = fst t * snd t"

definition abs_big :: "(pyfloat \<times> pyfloat) list \<Rightarrow> pyfloat list" where
  "abs_big ts = [x \<leftarrow> map notional (trades_of ts). big_trade_threshold \<le> x]"

definition abs_small :: "(pyfloat \<times> pyfloat) list \<Rightarrow> pyfloat list" where
  "abs_small ts = [x \<leftarrow> map notional (trades_of ts). \<not> big_trade_threshold \<le> x]"

text \<open>The ticks of a message sequence: the messages whose price and volume both convert.\<close>

definition parse_tick :: "jvalue \<Rightarrow> (pyfloat \<times> pyfloat) option" where
  "parse_tick d =
     (case float_field d ''c'' of
        Inl _ \<Rightarrow> None
      | Inr c \<Rightarrow> (case float_field d ''v'' of Inl _ \<Rightarrow> None | Inr v \<Rightarrow> Some (c, v)))"

definition ticks_of :: "jvalue list \<Rightarrow> (pyfloat \<times> pyfloat) list" where
  "ticks_of ds = List.map_filter parse_tick ds"

text \<open>The invariant of the accumulator.\<close>

definition proc_inv :: "processor \<Rightarrow> bool" where
  "proc_inv p \<longleftrightarrow>
     (previous_price p = None \<longleftrightarrow> prev_v p = None) \<and>
     (previous_price p = None \<longrightarrow> price p = [] \<and> bigTrade p = [] \<and> smallTrade p = []) \<and>
     length (price p) = length (bigTrade p) + length (smallTrade p) \<and>
     list_all (\<lambda>x. big_trade_threshold \<le> x) (bigTrade p) \<and>
     list_all (\<lambda>x. x < big_trade_threshold) (smallTrade p)"


section \<open>Evaluation\<close>

text \<open>The definitions a closed instance of \<open>float(s)\<close> unfolds to.\<close>

lemmas parse_eval = parse_float_def py_strip_def sign_of_def mantissa_def digitpart_def
  exponent_def scale10_def is_digit_def digit_val_def is_py_space_def lower_ascii_def

section \<open>The handler on each branch\<close>

lemma on_message_Inr_iff:
  "on_message p d = Inr p' \<longleftrightarrow> (\<exists>c v. parse_tick d = Some (c, v) \<and> p' = on_tick p c v)"
  by (auto simp: on_message_def parse_tick_def split: sum.splits)

lemma handle_parse_tick:
  "handle p d = (case parse_tick d of Some (c, v) \<Rightarrow> on_tick p c v | None \<Rightarrow> p)"
  by (auto simp: handle_def on_message_def parse_tick_def split: sum.splits)

lemma feed_feed_ticks: "feed p ds = feed_ticks p (ticks_of ds)"
proof (induction ds arbitrary: p)
  case Nil
  then show ?case by (simp add: feed_def feed_ticks_def ticks_of_def map_filter_simps)
next
  case (Cons d ds)
  then show ?case
    by (auto simp: feed_def feed_ticks_def ticks_of_def map_filter_simps handle_parse_tick
        split: option.splits)
qed

lemma commit_trade_fresh [proc_simps]: "previous_price p = None \<Longrightarrow> commit_trade p c vol = p"
  by (simp add: commit_trade_def)

lemma commit_trade_same [proc_simps]: "previous_price p = Some c \<Longrightarrow> commit_trade p c vol = p"
  by (simp add: commit_trade_def)

lemma on_tick_fields [proc_simps]:
  "previous_price (on_tick p c v) = Some c"
  "prev_v (on_tick p c v) = Some v"
  "csv_file_name (on_tick p c v) = csv_file_name p"
  "intervals (on_tick p c v) = intervals p"
  by (simp_all add: on_tick_def commit_trade_def Let_def)

lemma on_tick_lists:
  "price (on_tick p c v) =
     price p @ (if previous_price p \<noteq> None \<and> Some c \<noteq> previous_price p then [c] else [])"
  "bigTrade (on_tick p c v) = bigTrade p @
     (if previous_price p \<noteq> None \<and> Some c \<noteq> previous_price p \<and>
         big_trade_threshold \<le> c * normalize_volume (prev_v p) v
      then [c * normalize_volume (prev_v p) v] else [])"
  "smallTrade (on_tick p c v) = smallTrade p @
     (if previous_price p \<noteq> None \<and> Some c \<noteq> previous_price p \<and>
         \<not> big_trade_threshold \<le> c * normalize_volume (prev_v p) v
      then [c * normalize_volume (prev_v p) v] else [])"
  by (simp_all add: on_tick_def commit_trade_def Let_def)

lemma feed_ticks_Cons [proc_simps]: "feed_ticks p ((c, v) # ts) = feed_ticks (on_tick p c v) ts"
  by (simp add: feed_ticks_def)

lemma on_tick_inv:
  assumes "proc_inv p" shows "proc_inv (on_tick p c v)"
proof (cases "previous_price p")
  case None
  with assms show ?thesis
    by (simp add: proc_inv_def on_tick_lists proc_simps)
next
  case (Some c0)
  with assms have "prev_v p \<noteq> None" by (simp add: proc_inv_def)
  with Some assms show ?thesis
    by (auto simp: proc_inv_def on_tick_lists proc_simps)
qed

lemma proc_inv_init: "proc_inv init_processor"
  by (simp add: proc_inv_def init_processor_def)

section \<open>Refinement of the abstract accumulator\<close>

text \<open>
  From a state that has seen the tick \<open>(c0, v0)\<close>, a run of ticks appends
  exactly the abstract trades of \<open>(c0, v0)\<close> followed by the run.
\<close>

lemma feed_ticks_refines:
  assumes "previous_price p = Some c0" "prev_v p = Some v0"
  shows "price (feed_ticks p ts) = price p @ map fst (trades_of ((c0, v0) # ts)) \<and>
         bigTrade (feed_ticks p ts) = bigTrade p @ abs_big ((c0, v0) # ts) \<and>
         smallTrade (feed_ticks p ts) = smallTrade p @ abs_small ((c0, v0) # ts)"
  using assms
proof (induction ts arbitrary: p c0 v0)
  case Nil
  then show ?case by (simp add: feed_ticks_def abs_big_def abs_small_def)
next
  case (Cons t ts)
  obtain c1 v1 where t: "t = (c1, v1)" by (cases t)
  let ?p1 = "on_tick p c1 v1"
  have IH: "price (feed_ticks ?p1 ts) = price ?p1 @ map fst (trades_of ((c1, v1) # ts)) \<and>
            bigTrade (feed_ticks ?p1 ts) = bigTrade ?p1 @ abs_big ((c1, v1) # ts) \<and>
            smallTrade (feed_ticks ?p1 ts) = smallTrade ?p1 @ abs_small ((c1, v1) # ts)"
    by (rule Cons.IH) (simp_all add: proc_simps)
  show ?case
    using IH Cons.prems
    by (simp add: t proc_simps on_tick_lists abs_big_def abs_small_def notional_def
        normalize_volume_def)
qed

lemma feed_init_refines:
  "price (feed init_processor ds) = map fst (trades_of (ticks_of ds)) \<and>
   bigTrade (feed init_processor ds) = abs_big (ticks_of ds) \<and>
   smallTrade (feed init_processor ds) = abs_small (ticks_of ds)"
proof (cases "ticks_of ds")
  case Nil
  then show ?thesis
    by (simp add: feed_feed_ticks feed_ticks_def init_processor_def abs_big_def abs_small_def)
next
  case (Cons t ts)
  obtain c0 v0 where t: "t = (c0, v0)" by (cases t)
  let ?p1 = "on_tick init_processor c0 v0"
  have p1: "previous_price ?p1 = Some c0" "prev_v ?p1 = Some v0"
    "price ?p1 = []" "bigTrade ?p1 = []" "smallTrade ?p1 = []"
    by (simp_all add: proc_simps on_tick_lists init_processor_def)
  have "price (feed_ticks ?p1 ts) = price ?p1 @ map fst (trades_of ((c0, v0) # ts)) \<and>
        bigTrade (feed_ticks ?p1 ts) = bigTrade ?p1 @ abs_big ((c0, v0) # ts) \<and>
        smallTrade (feed_ticks ?p1 ts) = smallTrade ?p1 @ abs_small ((c0, v0) # ts)"
    using p1(1,2) by (rule feed_ticks_refines)
  then show ?thesis using Cons t p1 by (simp add: feed_feed_ticks proc_simps)
qed

lemma on_message_prefixes:
  assumes "on_message p d = Inr p'"
  shows "prefix (price p) (price p') \<and> prefix (bigTrade p) (bigTrade p') \<and>
         prefix (smallTrade p) (smallTrade p')"
  using assms by (auto simp: on_message_Inr_iff on_tick_lists)

section \<open>Properties\<close>

text \<open>
  C1: Refinement: after any sequence of feed messages, the
  processor's \<open>price\<close>, \<open>bigTrade\<close> and \<open>smallTrade\<close> lists are exactly
  the abstract specification's: the prices of the ticks whose price differs from
  the previous tick's, and those trades' values (price times rounded volume
  delta) split at the threshold, in order; malformed messages are skipped.
\<close>

theorem feed_refines:
  "price (feed init_processor ds) = map fst (trades_of (ticks_of ds)) \<and>
   bigTrade (feed init_processor ds) = abs_big (ticks_of ds) \<and>
   smallTrade (feed init_processor ds) = abs_small (ticks_of ds)"
  by (rule feed_init_refines)

text \<open>
  C2: A message whose price differs from the previous one
  commits a trade of value \<open>price * round(|prev_v - volume|, 2)\<close>: the price
  is appended to \<open>price\<close>, the value to \<open>bigTrade\<close> when it is at least
  100000 and to \<open>smallTrade\<close> otherwise, and the previous price and volume
  are updated.
\<close>

theorem committed_trade:
  assumes "previous_price p = Some c0" "prev_v p = Some v0" "parse_tick d = Some (c, v)" "c \<noteq> c0"
  shows "on_message p d =
    Inr (let tv = c * py_round2 \<bar>v0 - v\<bar>;
             p' = p\<lparr>price := price p @ [c], previous_price := Some c, prev_v := Some v\<rparr> in
         if 100000 \<le> tv then p'\<lparr>bigTrade := bigTrade p @ [tv]\<rparr>
         else p'\<lparr>smallTrade := smallTrade p @ [tv]\<rparr>)"
  using assms
  by (simp add: on_message_Inr_iff on_tick_def commit_trade_def normalize_volume_def
      big_trade_threshold_def Let_def)

theorem committed_trade_witness:
  "on_message (on_tick init_processor 100 10) (ticker ''105'' ''15'') =
   Inr (init_processor\<lparr>price := [105], previous_price := Some 105, prev_v := Some 15,
                       smallTrade := [525]\<rparr>)"
proof -
  have h1: "previous_price (on_tick init_processor 100 10) = Some 100" by (simp add: proc_simps)
  have h2: "prev_v (on_tick init_processor 100 10) = Some 10" by (simp add: proc_simps)
  have h3: "parse_tick (ticker ''105'' ''15'') = Some (105, 15)"
    by (simp add: parse_tick_def float_field_ticker py_float_def parse_eval)
  have h4: "(105::real) \<noteq> 100" by simp
  show ?thesis
    using committed_trade [OF h1 h2 h3 h4]
    by (simp add: on_tick_def init_processor_def commit_trade_def py_round2_def
        round_half_even_def Let_def)
qed

text \<open>
  C3: A message that repeats the previous price commits no
  trade: the three lists are unchanged, while the previous price and the
  previous cumulative volume are still updated.
\<close>

theorem same_price_no_trade:
  assumes "previous_price p = Some c" "parse_tick d = Some (c, v)"
  shows "on_message p d = Inr (p\<lparr>previous_price := Some c, prev_v := Some v\<rparr>)"
  using assms by (simp add: on_message_Inr_iff on_tick_def commit_trade_same)

theorem same_price_no_trade_witness:
  "on_message (on_tick init_processor 105 15) (ticker ''105'' ''20'') =
   Inr ((on_tick init_processor 105 15)\<lparr>previous_price := Some 105, prev_v := Some 20\<rparr>)"
  by (rule same_price_no_trade)
     (simp_all add: proc_simps parse_tick_def float_field_ticker py_float_def parse_eval)

text \<open>
  C4: The first well-formed message commits nothing and its
  volume delta is 0: it only records the baseline price and cumulative volume.
\<close>

theorem first_message:
  assumes "parse_tick d = Some (c, v)"
  shows "on_message init_processor d =
           Inr (init_processor\<lparr>previous_price := Some c, prev_v := Some v\<rparr>) \<and>
         normalize_volume (prev_v init_processor) v = 0"
  using assms
  by (simp add: on_message_Inr_iff on_tick_def init_processor_def commit_trade_def
      normalize_volume_def)

theorem first_message_witness:
  "on_message init_processor (ticker ''100'' ''10'') =
     Inr (init_processor\<lparr>previous_price := Some 100, prev_v := Some 10\<rparr>) \<and>
   normalize_volume (prev_v init_processor) 10 = 0"
  by (rule first_message) (simp add: parse_tick_def float_field_ticker py_float_def parse_eval)

text \<open>
  C5: No trade is counted twice or dropped: after any sequence of
  messages, the sum of \<open>bigTrade\<close> plus the sum of \<open>smallTrade\<close> is the
  sum of the values of all committed trades.
\<close>

theorem feed_partition:
  "sum_list (bigTrade (feed init_processor ds)) + sum_list (smallTrade (feed init_processor ds)) =
   sum_list (map notional (trades_of (ticks_of ds)))"
  using feed_init_refines [of ds] by (simp add: abs_big_def abs_small_def sum_list_filter_partition)

text \<open>
  C6: Every handled message keeps the accumulator's invariant:
  previous price and volume are set together, nothing is recorded before the
  first message, every recorded price has exactly one trade value, every value
  in \<open>bigTrade\<close> is at least 100000 and every value in \<open>smallTrade\<close> is below.
\<close>

theorem on_message_inv:
  assumes "proc_inv p" "on_message p d = Inr p'"
  shows "proc_inv p'"
  using assms by (auto simp: on_message_Inr_iff intro: on_tick_inv)

theorem on_message_inv_witness:
  "proc_inv (on_tick init_processor 100 10) \<and>
   on_message (on_tick init_processor 100 10) (ticker ''105'' ''15'') =
     Inr (on_tick (on_tick init_processor 100 10) 105 15) \<and>
   proc_inv (on_tick (on_tick init_processor 100 10) 105 15)"
proof -
  have h1: "proc_inv (on_tick init_processor 100 10)"
    by (rule on_tick_inv [OF proc_inv_init])
  have h2: "on_message (on_tick init_processor 100 10) (ticker ''105'' ''15'') =
            Inr (on_tick (on_tick init_processor 100 10) 105 15)"
    by (simp add: on_message_def float_field_ticker py_float_def parse_eval)
  show ?thesis using h1 h2 on_message_inv [OF h1 h2] by simp
qed

text \<open>
  C7: The accumulator is append-only: a handled message
  only appends to \<open>price\<close>, \<open>bigTrade\<close> and \<open>smallTrade\<close>; nothing is
  removed or reset.
\<close>

theorem on_message_append_only:
  assumes "on_message p d = Inr p'"
  shows "prefix (price p) (price p') \<and> prefix (bigTrade p) (bigTrade p') \<and>
         prefix (smallTrade p) (smallTrade p')"
  using assms by (rule on_message_prefixes)

theorem on_message_append_only_witness:
  "on_message (on_tick init_processor 100 10) (ticker ''105'' ''15'') =
     Inr (on_tick (on_tick init_processor 100 10) 105 15) \<and>
   prefix (price (on_tick init_processor 100 10)) (price (on_tick (on_tick init_processor 100 10) 105 15)) \<and>
   prefix (bigTrade (on_tick init_processor 100 10)) (bigTrade (on_tick (on_tick init_processor 100 10) 105 15)) \<and>
   prefix (smallTrade (on_tick init_processor 100 10)) (smallTrade (on_tick (on_tick init_processor 100 10) 105 15))"
proof -
  have h: "on_message (on_tick init_processor 100 10) (ticker ''105'' ''15'') =
           Inr (on_tick (on_tick init_processor 100 10) 105 15)"
    by (simp add: on_message_def float_field_ticker py_float_def parse_eval)
  show ?thesis using h on_message_append_only [OF h] by simp
qed

text \<open>
  C8: Error paths of lines 102-105: a message without a price key raises
  \<open>KeyError('c')\<close>; a price that is not a number raises \<open>ValueError\<close>
  (the price is read before the volume); a good price without a volume key
  raises \<open>KeyError('v')\<close>; a message that is not a dict raises
  \<open>TypeError\<close>; and a dict whose last \<open>"c"\<close> and \<open>"v"\<close> entries are
  numeric strings is handled as the tick of those numbers.
\<close>

theorem on_message_errors:
  "(map_of (rev kvs) ''c'' = None \<longrightarrow> on_message p (JObj kvs) = Inl (KeyError ''c'')) \<and>
   (map_of (rev kvs) ''c'' = Some (JStr s) \<longrightarrow> parse_float s = NotANumber \<longrightarrow>
      on_message p (JObj kvs) = Inl (ValueError s)) \<and>
   (map_of (rev kvs) ''c'' = Some (JStr s) \<longrightarrow> parse_float s = Finite x \<longrightarrow> map_of (rev kvs) ''v'' = None \<longrightarrow>
      on_message p (JObj kvs) = Inl (KeyError ''v'')) \<and>
   (map_of (rev kvs) ''c'' = Some (JStr s) \<longrightarrow> parse_float s = Finite x \<longrightarrow>
      map_of (rev kvs) ''v'' = Some (JStr s') \<longrightarrow> parse_float s' = Finite y \<longrightarrow>
      on_message p (JObj kvs) = Inr (on_tick p x y)) \<and>
   ((\<forall>kvs'. d \<noteq> JObj kvs') \<longrightarrow> (\<exists>m. on_message p d = Inl (TypeError m)))"
  by (cases d) (auto simp: on_message_def float_field_def py_getitem_def py_float_def)

theorem on_message_errors_witness:
  "map_of (rev [(''v'', JStr ''1'')]) ''c'' = None \<and>
     on_message init_processor (JObj [(''v'', JStr ''1'')]) = Inl (KeyError ''c'') \<and>
   map_of (rev [(''c'', JStr ''abc'')]) ''c'' = Some (JStr ''abc'') \<and> parse_float ''abc'' = NotANumber \<and>
     on_message init_processor (JObj [(''c'', JStr ''abc'')]) = Inl (ValueError ''abc'') \<and>
   map_of (rev [(''c'', JStr ''100'')]) ''c'' = Some (JStr ''100'') \<and> parse_float ''100'' = Finite 100 \<and>
     map_of (rev [(''c'', JStr ''100'')]) ''v'' = None \<and>
     on_message init_processor (JObj [(''c'', JStr ''100'')]) = Inl (KeyError ''v'') \<and>
   map_of (rev [(''c'', JStr ''100''), (''v'', JStr ''10'')]) ''v'' = Some (JStr ''10'') \<and> parse_float ''10'' = Finite 10 \<and>
     on_message init_processor (JObj [(''c'', JStr ''100''), (''v'', JStr ''10'')]) = Inr (on_tick init_processor 100 10) \<and>
   (\<forall>kvs'. JNull \<noteq> JObj kvs') \<and> (\<exists>m. on_message init_processor JNull = Inl (TypeError m))"
proof -
  have n: "parse_float ''abc'' = NotANumber" "parse_float ''100'' = Finite 100" "parse_float ''10'' = Finite 10"
    by (simp_all add: parse_eval)
  note t = on_message_errors [of "[(''v'', JStr ''1'')]" init_processor]
    on_message_errors [of "[(''c'', JStr ''abc'')]" init_processor "''abc''"]
    on_message_errors [of "[(''c'', JStr ''100'')]" init_processor "''100''" 100]
    on_message_errors [of "[(''c'', JStr ''100''), (''v'', JStr ''10'')]" init_processor "''100''" 100 "''10''" 10 JNull]
  show ?thesis using t n by simp
qed

text \<open>
  C19: The volume delta is never negative, is 0 on the first
  sample, and is within half a cent of the exact absolute difference of the
  cumulative volumes.
\<close>

theorem volume_delta_bounds:
  "0 \<le> normalize_volume pv v \<and> (pv = None \<longrightarrow> normalize_volume pv v = 0) \<and>
   (\<forall>p. pv = Some p \<longrightarrow> \<bar>normalize_volume pv v - \<bar>p - v\<bar>\<bar> \<le> 1 / 200)"
proof (cases pv)
  case None
  then show ?thesis by (simp add: normalize_volume_def)
next
  case (Some p)
  have "\<bar>py_round2 \<bar>p - v\<bar> - \<bar>p - v\<bar>\<bar> \<le> 1 / 200" by (rule py_round2_dist)
  then show ?thesis using Some by (simp add: normalize_volume_def py_round2_nonneg)
qed

theorem volume_delta_bounds_witness:
  "0 \<le> normalize_volume (Some 10) 15 \<and> \<bar>normalize_volume (Some 10) 15 - \<bar>10 - 15\<bar>\<bar> \<le> 1 / 200"
  using volume_delta_bounds [of "Some 10" 15] by simp

end
