(* ===== verification/Reporter.thy ===== *)
theory Reporter
  imports Processor
begin

text \<open>
  The reporter of \<open>src/main.py\<close>: \<open>format_trade_value\<close> (lines 34-38),
  \<open>write_to_csv\<close> (lines 40-60) and \<open>calculate_and_display\<close> (lines
  62-99). Output goes to an explicit world: the lines printed on the console
  and the CSV files as lists of records. The clock reading
  \<open>datetime.now().strftime(...)\<close> (line 79) is an input. The theory proves
  what a report shows on the empty accumulator, the spec's formatting examples,
  that a report's figures are bounded by the recorded prices, that the
  persisted totals read back to within the rounding of the format, and that a
  report writes exactly one console line and one CSV record and nothing else.
\<close>

section \<open>Output world\<close>

record io_world =
  console :: "string list"
  files :: "string \<Rightarrow> csv_row list option"

definition empty_world :: io_world where
  "empty_world = \<lparr>console = [], files = (\<lambda>_. None)\<rparr>"

text \<open>\<open>print(s)\<close>: one more line on the console.\<close>

definition py_print :: "string \<Rightarrow> io_world \<Rightarrow> io_world" where
  "py_print s w = w\<lparr>console := console w @ [s]\<rparr>"

text \<open>\<open>open(name, mode="a")\<close> and \<open>writer.writerow(row)\<close>: the record is appended, the file created if absent.\<close>

definition append_row :: "string \<Rightarrow> csv_row \<Rightarrow> io_world \<Rightarrow> io_world" where
  "append_row fn row w =
     w\<lparr>files := (files w)(fn \<mapsto> (case files w fn of None \<Rightarrow> [row] | Some rows \<Rightarrow> rows @ [row]))\<rparr>"

text \<open>\<open>open(name, mode="w")\<close> and \<open>writer.writerow(row)\<close>: the file is truncated to this record.\<close>

definition write_new :: "string \<Rightarrow> csv_row \<Rightarrow> io_world \<Rightarrow> io_world" where
  "write_new fn row w = w\<lparr>files := (files w)(fn \<mapsto> [row])\<rparr>"

section \<open>Formatting\<close>

text \<open>Lines 34-38: from one million on, in millions with the suffix \<open>" M"\<close>.\<close>

definition format_trade_value :: "pyfloat \<Rightarrow> string" where
  "format_trade_value value =
     (if value \<ge> 1000000 then fmt2 (value / 1000000) @ '' M'' else fmt2 value)"

text \<open>\<open>"{:<25} {:<25} ... {:<25}".format(...)\<close>: the columns left-justified to 25, one space between.\<close>

fun format_cols :: "string list \<Rightarrow> string" where
  "format_cols [] = []"
| "format_cols [f] = ljust 25 f"
| "format_cols (f # fs) = ljust 25 f @ '' '' @ format_cols fs"

section \<open>The report's figures\<close>

text \<open>Lines 63-77, read from the accumulator's lists.\<close>

definition total_big_trades :: "processor \<Rightarrow> pyfloat" where
  "total_big_trades p = sum_list (bigTrade p)"

definition total_small_trades :: "processor \<Rightarrow> pyfloat" where
  "total_small_trades p = sum_list (smallTrade p)"

definition average_price :: "processor \<Rightarrow> pyfloat" where
  "average_price p =
     (if length (price p) > 0 then sum_list (price p) / real (length (price p)) else 0)"

definition current_price :: "processor \<Rightarrow> pyfloat" where
  "current_price p = (if price p \<noteq> [] then last (price p) else 0)"

definition percentage :: "processor \<Rightarrow> pyfloat" where
  "percentage p =
     (let period_closing_price = average_price p in
      if period_closing_price \<noteq> 0
      then ((current_price p - period_closing_price) / period_closing_price) * 100
      else 0)"

text \<open>
  Python's \<open>/\<close>, which raises \<open>ZeroDivisionError\<close> on a zero divisor
  (\<open>sum([]) / len([])\<close> is \<open>0 / 0\<close> on integers: \<open>"division by zero"\<close>).
\<close>

definition py_truediv :: "pyfloat \<Rightarrow> pyfloat \<Rightarrow> py_error + pyfloat" where
  "py_truediv x y = (if y = 0 then Inl (ZeroDivisionError ''division by zero'') else Inr (x / y))"

text \<open>
  Lines 67-77 as the code evaluates them, each division by Python's \<open>/\<close>
  behind its guard (\<open>if len(self.price) > 0\<close>, \<open>if period_closing_price != 0\<close>):
  the average price and the percentage change, or the exception that would end
  the timer thread.
\<close>

definition report_figures :: "processor \<Rightarrow> py_error + pyfloat \<times> pyfloat" where
  "report_figures p =
     (case (if length (price p) > 0 then py_truediv (sum_list (price p)) (real (length (price p))) else Inr 0) of
        Inl e \<Rightarrow> Inl e
      | Inr avg \<Rightarrow>
          (let period_closing_price = avg in
           case (if period_closing_price \<noteq> 0
                 then (case py_truediv (current_price p - period_closing_price) period_closing_price of
                         Inl e \<Rightarrow> Inl e | Inr q \<Rightarrow> Inr (q * 100))
                 else Inr 0) of
             Inl e \<Rightarrow> Inl e
           | Inr pct \<Rightarrow> Inr (avg, pct)))"

text \<open>The six columns, as printed (lines 83-88) and as written (lines 53-58).\<close>

definition report_fields :: "processor \<Rightarrow> label \<Rightarrow> timestamp \<Rightarrow> string list" where
  "report_fields p interval start_time =
     [start_time, interval, format_trade_value (total_big_trades p),
      format_trade_value (total_small_trades p), fmt2 (average_price p), fmt2 (percentage p) @ ''%'']"

text \<open>Lines 40-60.\<close>

definition write_to_csv ::
  "processor \<Rightarrow> timestamp \<Rightarrow> label \<Rightarrow> string \<Rightarrow> string \<Rightarrow> pyfloat \<Rightarrow> pyfloat \<Rightarrow> io_world \<Rightarrow> io_world" where
  "write_to_csv p start_time interval formatted_big_trades formatted_small_trades avg pct w =
     append_row (csv_file_name p)
       [start_time, interval, formatted_big_trades, formatted_small_trades, fmt2 avg, fmt2 pct @ ''%''] w"

text \<open>
  Lines 62-99: print the line, then append the record. The accumulator is only
  read. An exception of the figures would end the timer thread before the
  print (the traceback goes to standard error, which the world does not hold).
\<close>

definition calculate_and_display :: "processor \<Rightarrow> label \<Rightarrow> timestamp \<Rightarrow> io_world \<Rightarrow> io_world" where
  "calculate_and_display p interval start_time w =
     (let formatted_big_trades = format_trade_value (total_big_trades p);
          formatted_small_trades = format_trade_value (total_small_trades p) in
      case report_figures p of
        Inl e \<Rightarrow> w
      | Inr (avg, pct) \<Rightarrow>
          (let w1 = py_print (format_cols [start_time, interval, formatted_big_trades,
                                           formatted_small_trades, fmt2 avg, fmt2 pct @ ''%'']) w
           in write_to_csv p start_time interval formatted_big_trades formatted_small_trades avg pct w1))"

section \<open>Reading a persisted total back\<close>

text \<open>
  Not part of the program: how a reader of the log recovers a total from its
  column, used to state what the format preserves.
\<close>

definition read_trade_value :: "string \<Rightarrow> float_lit" where
  "read_trade_value s =
     (if drop (length s - 2) s = '' M'' then
        (case parse_float (take (length s - 2) s) of Finite r \<Rightarrow> Finite (r * 1000000) | x \<Rightarrow> x)
      else parse_float s)"


section \<open>Lemmas\<close>

lemma sum_list_le_length_mult:
  fixes xs :: "real list"
  shows "\<forall>x \<in> set xs. x \<le> m \<Longrightarrow> sum_list xs \<le> real (length xs) * m"
  by (induction xs) (auto simp: algebra_simps)

lemma sum_list_ge_length_mult:
  fixes xs :: "real list"
  shows "\<forall>x \<in> set xs. m \<le> x \<Longrightarrow> real (length xs) * m \<le> sum_list xs"
  by (induction xs) (auto simp: algebra_simps)

lemma format_cols_columns:
  assumes "\<forall>f \<in> set fs. length f \<le> 25" "i < length fs"
  shows "take 25 (drop (26 * i) (format_cols fs)) = ljust 25 (fs ! i)"
  using assms
proof (induction fs arbitrary: i rule: format_cols.induct)
  case 1 then show ?case by simp
next
  case (2 f) then show ?case by simp
next
  case (3 f g fs)
  show ?case
  proof (cases i)
    case 0
    with "3.prems" show ?thesis by simp
  next
    case (Suc j)
    have l: "length (ljust 25 f @ '' '') = 26" using "3.prems"(1) by simp
    have "drop (26 * i) (format_cols (f # g # fs)) = drop (26 * j) (format_cols (g # fs))"
      using Suc l by (simp add: drop_append)
    with "3.IH" [of j] "3.prems" Suc show ?thesis by simp
  qed
qed

lemma report_figures_total: "report_figures p = Inr (average_price p, percentage p)"
proof (cases "price p = []")
  case True
  then show ?thesis by (simp add: report_figures_def average_price_def percentage_def)
next
  case False
  then have "average_price p = sum_list (price p) / real (length (price p))" by (simp add: average_price_def)
  then show ?thesis using False
    by (simp add: report_figures_def py_truediv_def percentage_def Let_def)
qed

lemma calculate_and_display_fields [report_simps]:
  "calculate_and_display p interval t w =
     append_row (csv_file_name p) (report_fields p interval t)
       (py_print (format_cols (report_fields p interval t)) w)"
  by (simp add: calculate_and_display_def write_to_csv_def report_fields_def Let_def report_figures_total)

text \<open>A processor after the spec's scenario: prices 105 and 110, two small trades.\<close>

definition scenario_processor :: processor where
  "scenario_processor =
     init_processor\<lparr>previous_price := Some 110, prev_v := Some 12, price := [105, 110],
                    smallTrade := [525, 330]\<rparr>"

lemma read_format_trade_value_eq:
  "read_trade_value (format_trade_value v) =
     Finite (if 1000000 \<le> v then py_round2 (v / 1000000) * 1000000 else py_round2 v)"
proof (cases "1000000 \<le> v")
  case True
  then show ?thesis
    by (simp add: format_trade_value_def read_trade_value_def parse_float_fmt2_eq)
next
  case False
  then show ?thesis
    using fmt2_last2 [of v]
    by (simp add: format_trade_value_def read_trade_value_def parse_float_fmt2_eq)
qed

section \<open>Properties\<close>

text \<open>
  C15: The report never raises \<open>ZeroDivisionError\<close>: on every accumulator
  the guarded divisions of lines 67-77 succeed and give the figures the report
  prints; with no recorded price nothing is divided, average price, current
  price and percentage change are 0, and the last two columns read
  \<open>0.00\<close> and \<open>0.00%\<close>.
\<close>

theorem report_never_divides_by_zero:
  "report_figures p = Inr (average_price p, percentage p) \<and>
   (price p = [] \<longrightarrow> average_price p = 0 \<and> current_price p = 0 \<and> percentage p = 0 \<and>
      drop 4 (report_fields p interval t) = [''0.00'', ''0.00%''])"
  using report_figures_total [of p]
  by (simp add: average_price_def current_price_def percentage_def report_fields_def fmt2_eval)

theorem report_never_divides_by_zero_witness:
  "price init_processor = [] \<and> report_figures init_processor = Inr (0, 0) \<and>
   average_price init_processor = 0 \<and> current_price init_processor = 0 \<and> percentage init_processor = 0 \<and>
   drop 4 (report_fields init_processor ''15 m'' ''11-09-2026 01:57:00'') = [''0.00'', ''0.00%'']"
proof -
  have h: "price init_processor = []" by (simp add: init_processor_def)
  show ?thesis using h report_never_divides_by_zero [of init_processor "''15 m''" "''11-09-2026 01:57:00''"] by simp
qed

text \<open>
  The spec's formatting examples: 999999.99 is written
  \<open>999999.99\<close>, one million \<open>1.00 M\<close>, 2500000.5 \<open>2.50 M\<close>.
\<close>

theorem format_examples:
  "format_trade_value 999999.99 = ''999999.99'' \<and>
   format_trade_value 1000000 = ''1.00 M'' \<and>
   format_trade_value 2500000.5 = ''2.50 M''"
  by (simp add: format_trade_value_def fmt2_eval)

text \<open>
  C17: Round trip of the persisted totals: reading a
  formatted total back (dropping the \<open>" M"\<close> suffix and scaling by a
  million) gives the total rounded to cents, or to 10000 for totals of a million
  or more.
\<close>

theorem read_format_trade_value:
  "read_trade_value (format_trade_value v) =
     Finite (if 1000000 \<le> v then py_round2 (v / 1000000) * 1000000 else py_round2 v)"
  by (rule read_format_trade_value_eq)

text \<open>
  C18: Bounds of the persisted totals: what the log
  shows is within 5000 of the true total from a million on, and within half a
  cent below.
\<close>

theorem format_trade_value_precision:
  "\<exists>r. read_trade_value (format_trade_value v) = Finite r \<and>
       \<bar>r - v\<bar> \<le> (if 1000000 \<le> v then 5000 else 1 / 200)"
proof -
  have e1: "\<bar>py_round2 (v / 1000000) - v / 1000000\<bar> \<le> 1 / 200" by (rule py_round2_dist)
  have e2: "\<bar>py_round2 v - v\<bar> \<le> 1 / 200" by (rule py_round2_dist)
  have "py_round2 (v / 1000000) * 1000000 - v = (py_round2 (v / 1000000) - v / 1000000) * 1000000"
    by (simp add: algebra_simps)
  then have "\<bar>py_round2 (v / 1000000) * 1000000 - v\<bar> =
             \<bar>(py_round2 (v / 1000000) - v / 1000000) * 1000000\<bar>"
    by (rule arg_cong)
  also have "\<dots> = \<bar>py_round2 (v / 1000000) - v / 1000000\<bar> * 1000000"
    by (simp only: abs_mult abs_numeral)
  finally have "\<bar>py_round2 (v / 1000000) * 1000000 - v\<bar> =
                \<bar>py_round2 (v / 1000000) - v / 1000000\<bar> * 1000000" .
  with e1 have "\<bar>py_round2 (v / 1000000) * 1000000 - v\<bar> \<le> 5000" by simp
  with e2 show ?thesis by (simp add: read_format_trade_value_eq)
qed

text \<open>
  C20: The reported average price lies between the least
  and the greatest recorded price.
\<close>

theorem average_price_bounds:
  assumes "price p \<noteq> []"
  shows "Min (set (price p)) \<le> average_price p \<and> average_price p \<le> Max (set (price p))"
proof -
  let ?xs = "price p"
  have n: "0 < real (length ?xs)" using assms by simp
  have "sum_list ?xs \<le> real (length ?xs) * Max (set ?xs)"
    using assms by (intro sum_list_le_length_mult) simp
  moreover have "real (length ?xs) * Min (set ?xs) \<le> sum_list ?xs"
    using assms by (intro sum_list_ge_length_mult) simp
  ultimately show ?thesis
    using assms n by (simp add: average_price_def pos_divide_le_eq pos_le_divide_eq mult.commute)
qed

theorem average_price_bounds_witness:
  "price scenario_processor \<noteq> [] \<and>
   Min (set (price scenario_processor)) \<le> average_price scenario_processor \<and>
   average_price scenario_processor \<le> Max (set (price scenario_processor))"
proof -
  have h: "price scenario_processor \<noteq> []" by (simp add: scenario_processor_def)
  show ?thesis using h average_price_bounds [OF h] by simp
qed

text \<open>
  C21: With a positive average price, the reported percentage
  change is non-negative exactly when the current (last) price is at least the
  average.
\<close>

theorem percentage_sign:
  assumes "0 < average_price p"
  shows "0 \<le> percentage p \<longleftrightarrow> average_price p \<le> current_price p"
  using assms by (simp add: percentage_def Let_def zero_le_divide_iff)

theorem percentage_sign_witness:
  "0 < average_price scenario_processor \<and>
   (0 \<le> percentage scenario_processor \<longleftrightarrow> average_price scenario_processor \<le> current_price scenario_processor)"
proof -
  have h: "0 < average_price scenario_processor"
    by (simp add: average_price_def scenario_processor_def init_processor_def)
  show ?thesis using h percentage_sign [OF h] by simp
qed

text \<open>
  C16: A report prints exactly one line (the six
  columns) and appends exactly one six-field record to the processor's CSV file,
  creating it if absent; no other file changes.
\<close>

theorem calculate_and_display_effect:
  "console (calculate_and_display p interval t w) = console w @ [format_cols (report_fields p interval t)] \<and>
   files (calculate_and_display p interval t w) (csv_file_name p) =
     Some (case files w (csv_file_name p) of None \<Rightarrow> [report_fields p interval t]
           | Some rows \<Rightarrow> rows @ [report_fields p interval t]) \<and>
   (\<forall>fn. fn \<noteq> csv_file_name p \<longrightarrow> files (calculate_and_display p interval t w) fn = files w fn) \<and>
   length (report_fields p interval t) = 6"
  by (simp add: calculate_and_display_fields append_row_def py_print_def
      report_fields_def split: option.splits)

theorem calculate_and_display_effect_witness:
  "console (calculate_and_display init_processor ''15 m'' ''t0'' empty_world) =
     [format_cols (report_fields init_processor ''15 m'' ''t0'')] \<and>
   files (calculate_and_display init_processor ''15 m'' ''t0'' empty_world) ''trade_data.csv'' =
     Some [report_fields init_processor ''15 m'' ''t0''] \<and>
   files (calculate_and_display init_processor ''15 m'' ''t0'' empty_world) ''other.csv'' = None \<and>
   length (report_fields init_processor ''15 m'' ''t0'') = 6"
  using calculate_and_display_effect [of init_processor "''15 m''" "''t0''" empty_world]
  by (simp add: empty_world_def init_processor_def)

text \<open>
  C22: Column layout of the console line: when every field fits
  in 25 characters, column \<open>j\<close> of a report line occupies characters
  \<open>26 j\<close> to \<open>26 j + 24\<close>, left-justified.
\<close>

theorem console_columns:
  assumes "\<forall>f \<in> set (report_fields p interval t). length f \<le> 25" "j < 6"
  shows "take 25 (drop (26 * j) (format_cols (report_fields p interval t))) =
         ljust 25 (report_fields p interval t ! j)"
proof -
  have "length (report_fields p interval t) = 6" by (simp add: report_fields_def)
  then show ?thesis using format_cols_columns [OF assms(1)] assms(2) by simp
qed


theorem console_columns_witness:
  "list_all (\<lambda>f. length f \<le> 25) (report_fields init_processor ''15 m'' ''t0'') \<and>
   take 25 (drop (26 * 2) (format_cols (report_fields init_processor ''15 m'' ''t0''))) =
   ljust 25 (report_fields init_processor ''15 m'' ''t0'' ! 2)"
proof -
  have fs: "report_fields init_processor ''15 m'' ''t0'' = [''t0'', ''15 m'', ''0.00'', ''0.00'', ''0.00'', ''0.00%'']"
    by (simp add: report_fields_def format_trade_value_def total_big_trades_def total_small_trades_def
        average_price_def percentage_def init_processor_def fmt2_eval)
  have h1: "\<forall>f \<in> set (report_fields init_processor ''15 m'' ''t0''). length f \<le> 25" by (simp add: fs)
  have h2: "(2::nat) < 6" by simp
  show ?thesis using h1 console_columns [OF h1 h2] by (simp add: list_all_iff)
qed

end
