(* ===== verification/Scheduler.thy ===== *)
theory Scheduler
  imports Reporter
begin

text \<open>
  The running program: \<open>start_processing\<close> (\<open>src/main.py\<close> lines
  138-173) writes the CSV header, prints the start banner and the console
  header, starts one \<open>threading.Timer\<close> per interval and enters the websocket
  event loop, whose callbacks are \<open>on_open\<close> (lines 131-136),
  \<open>on_message\<close>, \<open>on_error\<close> (lines 125-126) and \<open>on_close\<close> (lines
  128-129). The loop and the timers run concurrently; here each callback and
  each timer's report is one atomic step of an inductive relation over the
  whole program state, and time advances by whole seconds. The theory proves
  that reports come out in the order of the interval table, once per label,
  that every timer eventually fires, and that no step ever removes anything
  from the accumulator.
\<close>

section \<open>State\<close>

datatype conn_state = Connecting | Open | Closed

record sys =
  proc :: processor
  world :: io_world
  clock :: nat
  pending :: "(label \<times> nat) list"
  conn :: conn_state
  sent :: "jvalue list"

text \<open>The CSV header of line 143-148.\<close>

definition header_row :: csv_row where
  "header_row = [''Start Time'', ''period'', ''BigTrades'', ''SmallTrades'', ''Period Closing'', ''%Price Change'']"

text \<open>The console header of lines 152-156 (note the trailing space of its format string).\<close>

definition console_header :: string where
  "console_header =
     format_cols [''End Time'', ''period'', ''BigTrades'', ''SmallTrades'', ''Period Closing'', ''%Price Change'']
     @ '' ''"

text \<open>\<open>print("\nStart Time:", now, "\n")\<close>: the arguments joined by spaces.\<close>

definition start_banner :: "timestamp \<Rightarrow> string" where
  "start_banner now = [CHR ''\<newline>''] @ ''Start Time:'' @ '' '' @ now @ '' '' @ [CHR ''\<newline>'']"

text \<open>
  Lines 138-173 up to \<open>ws.run_forever()\<close>: the file is created or truncated
  with the header, two lines are printed, and every timer of the interval table
  is started, in the dict's order, at time 0.
\<close>

definition start_processing :: "processor \<Rightarrow> timestamp \<Rightarrow> io_world \<Rightarrow> sys" where
  "start_processing p now w =
     (let w1 = write_new (csv_file_name p) header_row w;
          w2 = py_print (start_banner now) w1;
          w3 = py_print console_header w2
      in \<lparr>proc = p, world = w3, clock = 0, pending = intervals p, conn = Connecting, sent = []\<rparr>)"

section \<open>Callbacks\<close>

text \<open>\<open>str(e)\<close> of the exceptions \<open>on_message\<close> raises.\<close>

definition py_repr_str :: "string \<Rightarrow> string" where
  "py_repr_str s = [CHR 0x27] @ s @ [CHR 0x27]"

fun py_str_error :: "py_error \<Rightarrow> string" where
  "py_str_error (KeyError k) = py_repr_str k"
| "py_str_error (ValueError s) = ''could not convert string to float: '' @ py_repr_str s"
| "py_str_error (TypeError m) = m"
| "py_str_error (NonFiniteValue s) = s"
| "py_str_error (JSONDecodeError msg doc pos) =
     (let pre = take pos doc in
      msg @ '': line '' @ nat_str (length (filter (\<lambda>c. c = CHR 0x0A) pre) + 1) @
      '' column '' @ nat_str (length (takeWhile (\<lambda>c. c \<noteq> CHR 0x0A) (rev pre)) + 1) @
      '' (char '' @ nat_str pos @ '')'')"
| "py_str_error (Unrepresentable s) = s"
| "py_str_error (ZeroDivisionError s) = s"

text \<open>Lines 125-126: \<open>on_error\<close> prints the error.\<close>

definition on_error :: "string \<Rightarrow> io_world \<Rightarrow> io_world" where
  "on_error e w = py_print e w"

text \<open>Lines 128-129.\<close>

definition on_close :: "io_world \<Rightarrow> io_world" where
  "on_close w = py_print ''WebSocket closed'' w"

text \<open>Lines 131-136: the subscription for \<open>btcusdt@ticker\<close> is sent.\<close>

definition on_open :: "jvalue list \<Rightarrow> jvalue list" where
  "on_open out = out @ [subscribe_msg ticker_symbol]"

text \<open>
  A message delivered by the loop: the handler's state on success; on an
  exception the client calls \<open>on_error\<close> with it and goes on with the state
  unchanged.
\<close>

definition deliver :: "sys \<Rightarrow> jvalue \<Rightarrow> sys" where
  "deliver s d =
     (case on_message (proc s) d of
        Inr p' \<Rightarrow> s\<lparr>proc := p'\<rparr>
      | Inl e \<Rightarrow> s\<lparr>world := on_error (py_str_error e) (world s)\<rparr>)"

text \<open>A timer firing: \<open>calculate_and_display(label)\<close> at the current wall-clock reading.\<close>

definition fire :: "sys \<Rightarrow> label \<times> nat \<Rightarrow> timestamp \<Rightarrow> sys" where
  "fire s t now =
     s\<lparr>world := calculate_and_display (proc s) (fst t) now (world s), pending := remove1 t (pending s)\<rparr>"

section \<open>Steps\<close>

text \<open>
  One atomic step of the running program. Messages arrive only on an open
  connection; a timer fires once its delay has elapsed, and time does not pass
  a second while a timer is due, so each timer fires at its delay. Messages
  whose price or volume Python reads as \<open>inf\<close> or \<open>nan\<close> are outside the
  model and never delivered.
\<close>

inductive sys_step :: "sys \<Rightarrow> sys \<Rightarrow> bool" where
  open_conn: "conn s = Connecting \<Longrightarrow>
    sys_step s (s\<lparr>conn := Open, sent := on_open (sent s)\<rparr>)"
| message: "conn s = Open \<Longrightarrow> \<forall>x. on_message (proc s) d \<noteq> Inl (NonFiniteValue x) \<Longrightarrow>
    sys_step s (deliver s d)"
| close: "conn s = Open \<Longrightarrow>
    sys_step s (s\<lparr>conn := Closed, world := on_close (world s)\<rparr>)"
| transport_error: "conn s \<noteq> Closed \<Longrightarrow>
    sys_step s (s\<lparr>conn := Closed, world := on_error e (world s)\<rparr>)"
| tick: "\<forall>t \<in> set (pending s). clock s < snd t \<Longrightarrow>
    sys_step s (s\<lparr>clock := Suc (clock s)\<rparr>)"
| timer: "t \<in> set (pending s) \<Longrightarrow> snd t \<le> clock s \<Longrightarrow>
    sys_step s (fire s t now)"

inductive reachable :: "sys \<Rightarrow> bool" where
  start: "reachable (start_processing init_processor now w)"
| step: "reachable s \<Longrightarrow> sys_step s s' \<Longrightarrow> reachable s'"

inductive sys_steps :: "sys \<Rightarrow> sys \<Rightarrow> bool" where
  refl: "sys_steps s s"
| step: "sys_step s s' \<Longrightarrow> sys_steps s' s'' \<Longrightarrow> sys_steps s s''"


text \<open>
  The scheduler's invariant: the processor keeps its file name and interval
  table, no pending timer is overdue, the pending timers are the table without
  its first \<open>k\<close> entries, and the CSV file holds the header and one record
  for each of those \<open>k\<close> labels, in order.
\<close>

definition sched_inv :: "sys \<Rightarrow> bool" where
  "sched_inv s \<longleftrightarrow>
     csv_file_name (proc s) = ''trade_data.csv'' \<and> intervals (proc s) = intervals_table \<and>
     (\<forall>t \<in> set (pending s). clock s \<le> snd t) \<and>
     (\<exists>k rows. pending s = drop k intervals_table \<and> length rows = k \<and>
        files (world s) ''trade_data.csv'' = Some (header_row # rows) \<and>
        map (\<lambda>r. r ! 1) rows = map fst (take k intervals_table))"

text \<open>The program right after start-up, with an empty world.\<close>

definition boot :: sys where
  "boot = start_processing init_processor ''11-09-2026 01:57:00'' empty_world"

text \<open>Twenty seconds after start-up the first timer has fired.\<close>

definition first_report :: sys where
  "first_report = fire (boot\<lparr>clock := 20\<rparr>) (''15 m'', 20) ''11-09-2026 01:57:20''"

text \<open>The subscription acknowledgement the exchange answers \<open>on_open\<close> with.\<close>

definition subscribe_ack :: jvalue where
  "subscribe_ack = JObj [(''result'', JNull), (''id'', JInt 1)]"


section \<open>The scheduler's invariant\<close>

lemma intervals_sorted: "sorted_wrt (\<lambda>a b. snd a < snd b) intervals_table"
  by (simp add: intervals_table_def)

lemma sorted_wrt_hd_least:
  fixes x :: "'a \<times> nat"
  assumes "sorted_wrt (\<lambda>a b. snd a < snd b) (x # xs)" "t \<in> set (x # xs)" "snd t \<le> snd x"
  shows "t = x"
proof (rule ccontr)
  assume "t \<noteq> x"
  with assms(2) have "t \<in> set xs" by simp
  with assms(1) have "snd x < snd t" by simp
  with assms(3) show False by simp
qed

lemma fire_head:
  assumes "t \<in> set (drop k intervals_table)" "snd t \<le> c" "\<forall>t' \<in> set (drop k intervals_table). c \<le> snd t'"
  shows "k < length intervals_table \<and> t = intervals_table ! k \<and>
         remove1 t (drop k intervals_table) = drop (Suc k) intervals_table"
proof -
  have k: "k < length intervals_table" using assms(1) by (cases "k < length intervals_table") auto
  then have d: "drop k intervals_table = intervals_table ! k # drop (Suc k) intervals_table"
    by (simp add: Cons_nth_drop_Suc)
  have srt: "sorted_wrt (\<lambda>a b. snd a < snd b) (drop k intervals_table)"
    using intervals_sorted by (rule sorted_wrt_drop)
  have "snd t \<le> snd (intervals_table ! k)" using assms(2,3) d by force
  then have "t = intervals_table ! k"
    using sorted_wrt_hd_least [of "intervals_table ! k" "drop (Suc k) intervals_table" t] srt assms(1) d
    by simp
  with k d show ?thesis by simp
qed

lemma take_Suc_label:
  "k < length intervals_table \<Longrightarrow> map fst (take (Suc k) intervals_table) = map fst (take k intervals_table) @ [fst (intervals_table ! k)]"
  by (simp add: take_Suc_conv_app_nth)

lemma report_fields_label: "report_fields p l t ! Suc 0 = l"
  by (simp add: report_fields_def)

lemma sched_inv_start: "sched_inv (start_processing init_processor now w)"
proof -
  let ?s = "start_processing init_processor now w"
  have f: "csv_file_name (proc ?s) = ''trade_data.csv''" "intervals (proc ?s) = intervals_table"
    "pending ?s = drop 0 intervals_table" "clock ?s = 0"
    "files (world ?s) ''trade_data.csv'' = Some (header_row # [])"
    by (simp_all add: start_processing_def init_processor_def write_new_def py_print_def Let_def)
  then show ?thesis unfolding sched_inv_def
    by (intro conjI ballI exI [of _ 0] exI [of _ "[]"]) simp_all
qed

lemma files_console_ops [simp]:
  "files (py_print x w) = files w"
  "files (on_error e w) = files w"
  "files (on_close w) = files w"
  by (simp_all add: py_print_def on_error_def on_close_def)

lemma deliver_fields [simp]:
  "files (world (deliver s d)) = files (world s)"
  "pending (deliver s d) = pending s" "clock (deliver s d) = clock s"
  "csv_file_name (proc (deliver s d)) = csv_file_name (proc s)"
  "intervals (proc (deliver s d)) = intervals (proc s)"
  by (auto simp: deliver_def on_message_Inr_iff proc_simps split: sum.splits)

lemma handle_deliver: "proc (deliver s d) = handle (proc s) d"
  by (simp add: deliver_def handle_def split: sum.splits)

lemma sched_inv_fire:
  assumes inv: "sched_inv s" and t: "t \<in> set (pending s)" "snd t \<le> clock s"
  shows "sched_inv (fire s t now)"
proof -
  from inv obtain k rows where
    fn: "csv_file_name (proc s) = ''trade_data.csv''" "intervals (proc s) = intervals_table" and
    cl: "\<forall>t \<in> set (pending s). clock s \<le> snd t" and
    pk: "pending s = drop k intervals_table" and len: "length rows = k" and
    fl: "files (world s) ''trade_data.csv'' = Some (header_row # rows)" and
    lb: "map (\<lambda>r. r ! 1) rows = map fst (take k intervals_table)"
    unfolding sched_inv_def by blast
  have h: "k < length intervals_table \<and> t = intervals_table ! k \<and>
           remove1 t (drop k intervals_table) = drop (Suc k) intervals_table"
    using t cl pk by (intro fire_head) auto
  then have hr: "remove1 t (drop k intervals_table) = drop (Suc k) intervals_table" by blast
  let ?rows = "rows @ [report_fields (proc s) (fst t) now]"
  have "files (world (fire s t now)) ''trade_data.csv'' = Some (header_row # ?rows)"
    using fn fl by (simp add: fire_def calculate_and_display_fields append_row_def)
  moreover have "map (\<lambda>r. r ! 1) ?rows = map fst (take (Suc k) intervals_table)"
    using lb h by (simp add: report_fields_label take_Suc_label)
  moreover have "pending (fire s t now) = drop (Suc k) intervals_table"
    using pk hr by (simp add: fire_def)
  moreover have "length ?rows = Suc k" using len by simp
  moreover have "\<forall>t' \<in> set (pending (fire s t now)). clock (fire s t now) \<le> snd t'"
    using cl set_remove1_subset by (fastforce simp: fire_def)
  ultimately show ?thesis using fn unfolding sched_inv_def by (auto simp: fire_def)
qed

lemma sys_step_sched_inv: "sys_step s s' \<Longrightarrow> sched_inv s \<Longrightarrow> sched_inv s'"
proof (induction rule: sys_step.induct)
  case (timer t s now)
  show ?case by (rule sched_inv_fire [OF timer.prems timer.hyps])
next
  case (tick s)
  then show ?case unfolding sched_inv_def by (auto simp: Suc_le_eq)
qed (simp_all add: sched_inv_def)

lemma reachable_sched_inv: "reachable s \<Longrightarrow> sched_inv s"
  by (induction rule: reachable.induct) (auto intro: sched_inv_start sys_step_sched_inv)

lemma sys_steps_trans: "sys_steps s s' \<Longrightarrow> sys_steps s' s'' \<Longrightarrow> sys_steps s s''"
  by (induction rule: sys_steps.induct) (auto intro: sys_steps.step)

lemma sys_steps_one: "sys_step s s' \<Longrightarrow> sys_steps s s'"
  by (blast intro: sys_steps.intros)

lemma sched_inv_sorted: "sched_inv s \<Longrightarrow> sorted_wrt (\<lambda>a b. snd a < snd b) (pending s)"
  unfolding sched_inv_def using intervals_sorted by (auto intro: sorted_wrt_drop)

lemma fire_next:
  assumes "sched_inv s" "pending s = t # rest"
  shows "\<exists>s'. sys_steps s s' \<and> sched_inv s' \<and> pending s' = rest"
  using assms
proof (induction "snd t - clock s" arbitrary: s)
  case 0
  then have st: "sys_step s (fire s t '''')" by (intro sys_step.timer) auto
  moreover have "pending (fire s t '''') = rest" using "0.prems"(2) by (simp add: fire_def)
  ultimately show ?case using "0.prems"(1) by (blast intro: sys_steps_one sys_step_sched_inv)
next
  case (Suc n)
  have srt: "sorted_wrt (\<lambda>a b. snd a < snd b) (t # rest)"
    using sched_inv_sorted [OF Suc.prems(1)] Suc.prems(2) by simp
  have "\<forall>t' \<in> set (pending s). clock s < snd t'"
    using Suc.hyps(2) srt Suc.prems(2) by auto
  then have st: "sys_step s (s\<lparr>clock := Suc (clock s)\<rparr>)" by (rule sys_step.tick)
  let ?s1 = "s\<lparr>clock := Suc (clock s)\<rparr>"
  have i1: "sched_inv ?s1" using st Suc.prems(1) by (rule sys_step_sched_inv)
  have "n = snd t - clock ?s1" using Suc.hyps(2) by simp
  then obtain s' where "sys_steps ?s1 s'" "sched_inv s'" "pending s' = rest"
    using Suc.hyps(1) i1 Suc.prems(2) by fastforce
  then show ?case using st by (blast intro: sys_steps.step)
qed

lemma drain:
  assumes "sched_inv s"
  shows "\<exists>s'. sys_steps s s' \<and> sched_inv s' \<and> pending s' = []"
  using assms
proof (induction "pending s" arbitrary: s)
  case Nil
  then show ?case by (metis sys_steps.refl)
next
  case (Cons t rest)
  obtain s1 where "sys_steps s s1" "sched_inv s1" "pending s1 = rest"
    using fire_next [OF Cons.prems Cons.hyps(2) [symmetric]] by blast
  moreover obtain s2 where "sys_steps s1 s2" "sched_inv s2" "pending s2 = []"
    using Cons.hyps(1) [of s1] calculation by blast
  ultimately show ?case by (blast intro: sys_steps_trans)
qed


lemma reachable_ticks:
  "reachable s \<Longrightarrow> \<forall>t \<in> set (pending s). clock s + n \<le> snd t \<Longrightarrow>
   reachable (s\<lparr>clock := clock s + n\<rparr>)"
proof (induction n)
  case 0
  then show ?case by simp
next
  case (Suc n)
  let ?s = "s\<lparr>clock := clock s + n\<rparr>"
  have r: "reachable ?s" using Suc by fastforce
  have "\<forall>t \<in> set (pending ?s). clock ?s < snd t" using Suc.prems(2) by auto
  then have "sys_step ?s (?s\<lparr>clock := Suc (clock ?s)\<rparr>)" by (rule sys_step.tick)
  with r have "reachable (?s\<lparr>clock := Suc (clock ?s)\<rparr>)" by (rule reachable.step)
  then show ?case by simp
qed

lemma boot_fields:
  "pending boot = intervals_table" "clock boot = 0" "proc boot = init_processor" "conn boot = Connecting"
  "files (world boot) ''trade_data.csv'' = Some [header_row]"
  by (simp_all add: boot_def start_processing_def init_processor_def write_new_def py_print_def
      empty_world_def Let_def)

lemma reachable_first_report: "reachable first_report"
proof -
  have r0: "reachable boot" unfolding boot_def by (rule reachable.start)
  have "\<forall>t \<in> set (pending boot). clock boot + 20 \<le> snd t"
    by (simp add: boot_fields intervals_table_def)
  with r0 have "reachable (boot\<lparr>clock := clock boot + 20\<rparr>)" by (rule reachable_ticks)
  then have r: "reachable (boot\<lparr>clock := 20\<rparr>)" by (simp add: boot_fields)
  have "sys_step (boot\<lparr>clock := 20\<rparr>) first_report"
    unfolding first_report_def by (rule sys_step.timer) (simp_all add: boot_fields intervals_table_def)
  with r show ?thesis by (rule reachable.step)
qed

lemma first_report_csv:
  "files (world first_report) ''trade_data.csv'' =
     Some [header_row, report_fields init_processor ''15 m'' ''11-09-2026 01:57:20'']"
  by (simp add: first_report_def fire_def calculate_and_display_fields append_row_def boot_fields
      init_processor_def)

section \<open>Properties\<close>

text \<open>
  C11: Safety of the schedule: in every reachable
  state the CSV file is the header followed by one record per fired timer, and
  the fired timers are exactly a prefix of the interval table, in its order
  (15 m, 30 m, 1 h, ...), the others still pending.
\<close>

theorem reports_in_schedule_order:
  assumes "reachable s"
  shows "\<exists>k rows. pending s = drop k intervals_table \<and>
           files (world s) ''trade_data.csv'' = Some (header_row # rows) \<and>
           map (\<lambda>r. r ! 1) rows = map fst (take k intervals_table)"
  using reachable_sched_inv [OF assms] unfolding sched_inv_def by blast

theorem reports_in_schedule_order_witness:
  "reachable first_report \<and>
   (\<exists>k rows. pending first_report = drop k intervals_table \<and>
      files (world first_report) ''trade_data.csv'' = Some (header_row # rows) \<and>
      map (\<lambda>r. r ! 1) rows = map fst (take k intervals_table))"
  using reachable_first_report reports_in_schedule_order [OF reachable_first_report] by blast

text \<open>
  C12: No interval is reported twice: the labels of the records in
  the CSV file are pairwise distinct in every reachable state.
\<close>

theorem reports_once:
  assumes "reachable s" "files (world s) ''trade_data.csv'' = Some (header_row # rows)"
  shows "distinct (map (\<lambda>r. r ! 1) rows)"
proof -
  obtain k rows' where "files (world s) ''trade_data.csv'' = Some (header_row # rows')"
    "map (\<lambda>r. r ! 1) rows' = map fst (take k intervals_table)"
    using reachable_sched_inv [OF assms(1)] unfolding sched_inv_def by blast
  moreover have "distinct (map fst (take k intervals_table))"
  proof -
    have "distinct (map fst intervals_table)" by (simp add: intervals_table_def)
    then have "distinct (take k (map fst intervals_table))" by (rule distinct_take)
    then show ?thesis by (simp add: take_map)
  qed
  ultimately show ?thesis using assms(2) by (metis list.inject option.inject)
qed

theorem reports_once_witness:
  "reachable first_report \<and>
   files (world first_report) ''trade_data.csv'' =
     Some (header_row # [report_fields init_processor ''15 m'' ''11-09-2026 01:57:20'']) \<and>
   distinct (map (\<lambda>r. r ! 1) [report_fields init_processor ''15 m'' ''11-09-2026 01:57:20''])"
  using reachable_first_report first_report_csv
    reports_once [OF reachable_first_report, of "[report_fields init_processor ''15 m'' ''11-09-2026 01:57:20'']"]
  by simp

text \<open>
  C13: Liveness of the timers: from every reachable state
  the program can run on (time passing, timers firing) until no timer is pending
  and the CSV file holds one record for each of the 14 intervals, in table order.
\<close>
theorem all_reports_eventually:
  assumes "reachable s"
  shows "\<exists>s'. sys_steps s s' \<and> pending s' = [] \<and>
           (\<exists>rows. files (world s') ''trade_data.csv'' = Some (header_row # rows) \<and>
                   map (\<lambda>r. r ! 1) rows = map fst intervals_table)"
proof -
  obtain s' where s': "sys_steps s s'" "sched_inv s'" "pending s' = []"
    using drain [OF reachable_sched_inv [OF assms]] by blast
  then obtain k rows where "drop k intervals_table = []"
    "files (world s') ''trade_data.csv'' = Some (header_row # rows)"
    "map (\<lambda>r. r ! 1) rows = map fst (take k intervals_table)"
    unfolding sched_inv_def by auto
  then show ?thesis using s' by auto
qed

theorem all_reports_eventually_witness:
  "reachable boot \<and>
   (\<exists>s'. sys_steps boot s' \<and> pending s' = [] \<and>
      (\<exists>rows. files (world s') ''trade_data.csv'' = Some (header_row # rows) \<and>
              map (\<lambda>r. r ! 1) rows = map fst intervals_table))"
proof -
  have h: "reachable boot" unfolding boot_def by (rule reachable.start)
  show ?thesis using h all_reports_eventually [OF h] by blast
qed

text \<open>
  C14: No step of the running program removes anything from the
  accumulator: messages only append, and timer reports, connection events and
  the passing of time leave \<open>price\<close>, \<open>bigTrade\<close> and \<open>smallTrade\<close>
  as they are. Reports are therefore cumulative since start-up.
\<close>
theorem steps_never_reset:
  assumes "sys_step s s'"
  shows "prefix (price (proc s)) (price (proc s')) \<and> prefix (bigTrade (proc s)) (bigTrade (proc s')) \<and>
         prefix (smallTrade (proc s)) (smallTrade (proc s'))"
  using assms
proof (induction rule: sys_step.induct)
  case (message s d)
  then show ?case
    by (cases "on_message (proc s) d")
       (auto simp: deliver_def dest: on_message_prefixes)
qed (simp_all add: fire_def)

theorem steps_never_reset_witness:
  "sys_step (boot\<lparr>conn := Open\<rparr>) (deliver (boot\<lparr>conn := Open\<rparr>) (ticker ''100'' ''10'')) \<and>
   prefix (price (proc (boot\<lparr>conn := Open\<rparr>))) (price (proc (deliver (boot\<lparr>conn := Open\<rparr>) (ticker ''100'' ''10'')))) \<and>
   prefix (bigTrade (proc (boot\<lparr>conn := Open\<rparr>))) (bigTrade (proc (deliver (boot\<lparr>conn := Open\<rparr>) (ticker ''100'' ''10'')))) \<and>
   prefix (smallTrade (proc (boot\<lparr>conn := Open\<rparr>))) (smallTrade (proc (deliver (boot\<lparr>conn := Open\<rparr>) (ticker ''100'' ''10''))))"
proof -
  have h: "sys_step (boot\<lparr>conn := Open\<rparr>) (deliver (boot\<lparr>conn := Open\<rparr>) (ticker ''100'' ''10''))"
    by (rule sys_step.message)
       (simp_all add: boot_fields on_message_def float_field_ticker py_float_def parse_eval)
  show ?thesis using h steps_never_reset [OF h] by simp
qed

end
