(* ===== verification/Interleaving.thy ===== *)
theory Interleaving
  imports Scheduler
begin

text \<open>
  The same program at the granularity CPython actually interleaves it. A timer
  runs \<open>calculate_and_display\<close> on its own thread, and the interpreter may switch
  threads between any two bytecodes, so the report's reads of the shared lists
  (\<open>sum(self.bigTrade)\<close> line 63, \<open>sum(self.smallTrade)\<close> line 64, the
  three reads of \<open>self.price\<close> on line 67 and the two on line 69) are separate
  steps, and so are the two halves of a committing \<open>on_message\<close>: the
  append to \<open>self.price\<close> (line 114) and the append to \<open>bigTrade\<close> or
  \<open>smallTrade\<close> with the updates of lines 117-123. Each call of a C builtin
  (\<open>sum\<close>, \<open>len\<close>, \<open>list.append\<close>, \<open>print\<close>, one CSV write) stays
  atomic. The theory proves that the atomic model of \<open>Scheduler\<close> is one of
  the schedules of this one (a simulation), that the accumulator still only
  grows, that \<open>len(price) = len(bigTrade) + len(smallTrade)\<close> holds up to the
  one message in flight (invariant \<open>finv\<close>), and that some schedule makes a
  report write an average price below every price ever recorded: the torn read
  of the spec's section 5.
\<close>

section \<open>A report in progress\<close>

text \<open>Where the report thread is in lines 63-99, with the values it has read.\<close>

datatype rstage = RBig | RSmall | RLen | RSum | RDiv | RTruth | RLast | RPrint | RWrite

record rthread =
  rt_label :: label
  rt_pc :: rstage
  rt_big :: pyfloat
  rt_small :: pyfloat
  rt_sum :: pyfloat
  rt_avg :: pyfloat
  rt_cur :: pyfloat
  rt_time :: timestamp

definition new_thread :: "label \<Rightarrow> rthread" where
  "new_thread l =
     \<lparr>rt_label = l, rt_pc = RBig, rt_big = 0, rt_small = 0, rt_sum = 0, rt_avg = 0, rt_cur = 0,
      rt_time = []\<rparr>"

text \<open>Line 70-77 on the values read.\<close>

definition rt_percentage :: "rthread \<Rightarrow> pyfloat" where
  "rt_percentage r =
     (if rt_avg r \<noteq> 0 then ((rt_cur r - rt_avg r) / rt_avg r) * 100 else 0)"

definition rt_fields :: "rthread \<Rightarrow> string list" where
  "rt_fields r =
     [rt_time r, rt_label r, format_trade_value (rt_big r), format_trade_value (rt_small r),
      fmt2 (rt_avg r), fmt2 (rt_percentage r) @ ''%'']"

text \<open>
  One step of the report thread against the current accumulator: a read of a
  shared list, or one of the two outputs. The conditional expressions of lines
  67 and 69 test the list before reading from it again.
\<close>

definition rt_read :: "processor \<Rightarrow> rthread \<Rightarrow> rthread" where
  "rt_read p r =
     (case rt_pc r of
        RBig \<Rightarrow> r\<lparr>rt_big := sum_list (bigTrade p), rt_pc := RSmall\<rparr>
      | RSmall \<Rightarrow> r\<lparr>rt_small := sum_list (smallTrade p), rt_pc := RLen\<rparr>
      | RLen \<Rightarrow> if length (price p) > 0 then r\<lparr>rt_pc := RSum\<rparr> else r\<lparr>rt_avg := 0, rt_pc := RTruth\<rparr>
      | RSum \<Rightarrow> r\<lparr>rt_sum := sum_list (price p), rt_pc := RDiv\<rparr>
      | RDiv \<Rightarrow> r\<lparr>rt_avg := rt_sum r / real (length (price p)), rt_pc := RTruth\<rparr>
      | RTruth \<Rightarrow> if price p \<noteq> [] then r\<lparr>rt_pc := RLast\<rparr> else r\<lparr>rt_cur := 0, rt_pc := RPrint\<rparr>
      | RLast \<Rightarrow> r\<lparr>rt_cur := last (price p), rt_pc := RPrint\<rparr>
      | RPrint \<Rightarrow> r
      | RWrite \<Rightarrow> r)"

definition is_read_stage :: "rstage \<Rightarrow> bool" where
  "is_read_stage st \<longleftrightarrow> st \<notin> {RPrint, RWrite}"

section \<open>The fine-grained program\<close>

text \<open>
  The program state of \<open>Scheduler\<close>, the second half of a committing message
  if one is in flight (price, volume, trade value), and the report threads.
\<close>

record fsys =
  base :: sys
  inflight :: "(pyfloat \<times> pyfloat \<times> pyfloat) option"
  threads :: "rthread list"

definition lift :: "sys \<Rightarrow> fsys" where
  "lift s = \<lparr>base = s, inflight = None, threads = []\<rparr>"

text \<open>Whether \<open>on_message\<close> reaches line 114 on this message.\<close>

definition commits :: "processor \<Rightarrow> pyfloat \<Rightarrow> bool" where
  "commits p c \<longleftrightarrow> previous_price p \<noteq> None \<and> Some c \<noteq> previous_price p"

text \<open>Lines 101-114 of a committing message: parse, delta, append the price.\<close>

definition msg_first_half :: "processor \<Rightarrow> pyfloat \<Rightarrow> processor" where
  "msg_first_half p c = p\<lparr>price := price p @ [c]\<rparr>"

text \<open>Lines 115-123: classify and append the value, update the previous price and volume.\<close>

definition msg_second_half :: "processor \<Rightarrow> pyfloat \<times> pyfloat \<times> pyfloat \<Rightarrow> processor" where
  "msg_second_half p x =
     (case x of (c, v, tv) \<Rightarrow>
        (if tv \<ge> big_trade_threshold then p\<lparr>bigTrade := bigTrade p @ [tv]\<rparr>
         else p\<lparr>smallTrade := smallTrade p @ [tv]\<rparr>)\<lparr>previous_price := Some c, prev_v := Some v\<rparr>)"

definition upd_base :: "(sys \<Rightarrow> sys) \<Rightarrow> fsys \<Rightarrow> fsys" where
  "upd_base f s = s\<lparr>base := f (base s)\<rparr>"

inductive fstep :: "fsys \<Rightarrow> fsys \<Rightarrow> bool" where
  open_conn: "conn (base s) = Connecting \<Longrightarrow>
    fstep s (upd_base (\<lambda>b. b\<lparr>conn := Open, sent := on_open (sent b)\<rparr>) s)"
| message_atomic: "conn (base s) = Open \<Longrightarrow> inflight s = None \<Longrightarrow>
    \<forall>x. on_message (proc (base s)) d \<noteq> Inl (NonFiniteValue x) \<Longrightarrow>
    (\<forall>c v. parse_tick d = Some (c, v) \<longrightarrow> \<not> commits (proc (base s)) c) \<Longrightarrow>
    fstep s (upd_base (\<lambda>b. deliver b d) s)"
| message_commit: "conn (base s) = Open \<Longrightarrow> inflight s = None \<Longrightarrow>
    parse_tick d = Some (c, v) \<Longrightarrow> commits (proc (base s)) c \<Longrightarrow>
    fstep s ((upd_base (\<lambda>b. b\<lparr>proc := msg_first_half (proc b) c\<rparr>) s)
      \<lparr>inflight := Some (c, v, c * normalize_volume (prev_v (proc (base s))) v)\<rparr>)"
| message_finish: "inflight s = Some x \<Longrightarrow>
    fstep s ((upd_base (\<lambda>b. b\<lparr>proc := msg_second_half (proc b) x\<rparr>) s)\<lparr>inflight := None\<rparr>)"
| close: "conn (base s) = Open \<Longrightarrow>
    fstep s (upd_base (\<lambda>b. b\<lparr>conn := Closed, world := on_close (world b)\<rparr>) s)"
| transport_error: "conn (base s) \<noteq> Closed \<Longrightarrow>
    fstep s (upd_base (\<lambda>b. b\<lparr>conn := Closed, world := on_error e (world b)\<rparr>) s)"
| tick: "\<forall>t \<in> set (pending (base s)). clock (base s) < snd t \<Longrightarrow>
    fstep s (upd_base (\<lambda>b. b\<lparr>clock := Suc (clock b)\<rparr>) s)"
| timer_start: "t \<in> set (pending (base s)) \<Longrightarrow> snd t \<le> clock (base s) \<Longrightarrow>
    fstep s ((upd_base (\<lambda>b. b\<lparr>pending := remove1 t (pending b)\<rparr>) s)
      \<lparr>threads := threads s @ [new_thread (fst t)]\<rparr>)"
| report_read: "i < length (threads s) \<Longrightarrow> is_read_stage (rt_pc (threads s ! i)) \<Longrightarrow>
    fstep s (s\<lparr>threads := (threads s)[i := rt_read (proc (base s)) (threads s ! i)]\<rparr>)"
| report_print: "i < length (threads s) \<Longrightarrow> rt_pc (threads s ! i) = RPrint \<Longrightarrow>
    fstep (s :: fsys)
      (let r = (threads s ! i)\<lparr>rt_time := now, rt_pc := RWrite\<rparr> in
       (upd_base (\<lambda>b. b\<lparr>world := py_print (format_cols (rt_fields r)) (world b)\<rparr>) s)
         \<lparr>threads := (threads s)[i := r]\<rparr>)"
| report_write: "i < length (threads s) \<Longrightarrow> rt_pc (threads s ! i) = RWrite \<Longrightarrow>
    fstep s ((upd_base (\<lambda>b. b\<lparr>world := append_row (csv_file_name (proc b))
                                  (rt_fields (threads s ! i)) (world b)\<rparr>) s)
      \<lparr>threads := take i (threads s) @ drop (Suc i) (threads s)\<rparr>)"

inductive fsteps :: "fsys \<Rightarrow> fsys \<Rightarrow> bool" where
  refl: "fsteps s s"
| step: "fstep s s' \<Longrightarrow> fsteps s' s'' \<Longrightarrow> fsteps s s''"

inductive freachable :: "fsys \<Rightarrow> bool" where
  start: "freachable (lift (start_processing init_processor now w))"
| step: "freachable s \<Longrightarrow> fstep s s' \<Longrightarrow> freachable s'"

text \<open>
  A report thread running \<open>n\<close> of its reads without interruption (the
  steps \<open>report_read\<close> in a row).
\<close>

fun read_run :: "nat \<Rightarrow> processor \<Rightarrow> rthread \<Rightarrow> rthread" where
  "read_run 0 p r = r"
| "read_run (Suc n) p r = (if is_read_stage (rt_pc r) then read_run n p (rt_read p r) else r)"

text \<open>
  The invariant of the fine-grained accumulator: with no message in flight it is
  \<open>proc_inv\<close>; in the middle of a committing message it is a state satisfying
  \<open>proc_inv\<close> with the new price appended, and the pending trade value is the
  one line 115 computes from that state.
\<close>

definition finv :: "fsys \<Rightarrow> bool" where
  "finv s \<longleftrightarrow>
     (case inflight s of
        None \<Rightarrow> proc_inv (proc (base s))
      | Some (c, v, tv) \<Rightarrow> \<exists>p0. proc_inv p0 \<and> commits p0 c \<and> proc (base s) = msg_first_half p0 c \<and>
                             tv = c * normalize_volume (prev_v p0) v)"

text \<open>
  A run showing the torn read: after start-up the connection opens, the ticks
  (100, 10) and (105, 15) arrive and commit a small trade of 525, and twenty
  seconds pass. The \<open>15 m\<close> timer then starts a report, which reads both
  totals, tests \<open>len(self.price)\<close> and reads \<open>sum(self.price)\<close> = 105;
  the tick (110, 12) appends 110 to \<open>self.price\<close>; the report divides by
  the new length 2, reads the last price 110, prints and writes its record.
\<close>

definition torn_start :: sys where
  "torn_start =
     (deliver (deliver (boot\<lparr>conn := Open, sent := on_open (sent boot)\<rparr>) (ticker ''100'' ''10''))
        (ticker ''105'' ''15''))\<lparr>clock := 20\<rparr>"

definition torn_row :: csv_row where
  "torn_row = [''11-09-2026 01:57:20'', ''15 m'', ''0.00'', ''525.00'', ''52.50'', ''109.52%'']"

definition torn_state :: fsys where
  "torn_state =
     \<lparr>base = torn_start\<lparr>proc := msg_first_half (proc torn_start) 110, pending := tl intervals_table,
                        world := append_row ''trade_data.csv'' torn_row
                                   (py_print (format_cols torn_row) (world torn_start))\<rparr>,
      inflight = Some (110, 12, 330), threads = []\<rparr>"

section \<open>Lemmas\<close>

lemma lift_fields [simp]: "base (lift s) = s" "inflight (lift s) = None" "threads (lift s) = []"
  by (simp_all add: lift_def)

lemma rt_fields_pc [simp]: "rt_fields (r\<lparr>rt_pc := x\<rparr>) = rt_fields r"
  by (simp add: rt_fields_def rt_percentage_def)

lemma upd_base_lift: "upd_base f (lift s) = lift (f s)"
  by (simp add: upd_base_def lift_def)

lemma msg_first_half_lists [simp]:
  "price (msg_first_half p c) = price p @ [c]" "bigTrade (msg_first_half p c) = bigTrade p"
  "smallTrade (msg_first_half p c) = smallTrade p"
  by (simp_all add: msg_first_half_def)

lemma fsteps_trans: "fsteps s s' \<Longrightarrow> fsteps s' s'' \<Longrightarrow> fsteps s s''"
  by (induction rule: fsteps.induct) (auto intro: fsteps.step)

lemma fsteps_one: "fstep s s' \<Longrightarrow> fsteps s s'"
  by (blast intro: fsteps.intros)

lemma freachable_fsteps: "fsteps s s' \<Longrightarrow> freachable s \<Longrightarrow> freachable s'"
  by (induction rule: fsteps.induct) (auto intro: freachable.step)

subsection \<open>Runs of a report thread\<close>

lemma fsteps_reads:
  assumes "i < length (threads s)" "threads s ! i = r"
  shows "fsteps s (s\<lparr>threads := (threads s)[i := read_run n (proc (base s)) r]\<rparr>)"
  using assms
proof (induction n arbitrary: s r)
  case 0
  then have "(threads s)[i := read_run 0 (proc (base s)) r] = threads s"
    by (metis list_update_id read_run.simps(1))
  then show ?case by (simp add: fsteps.refl)
next
  case (Suc n)
  show ?case
  proof (cases "is_read_stage (rt_pc r)")
    case True
    let ?s1 = "s\<lparr>threads := (threads s)[i := rt_read (proc (base s)) r]\<rparr>"
    have st: "fstep s ?s1" using fstep.report_read [of i s] Suc.prems True by simp
    have "fsteps ?s1 (?s1\<lparr>threads := (threads ?s1)[i := read_run n (proc (base ?s1)) (rt_read (proc (base s)) r)]\<rparr>)"
      by (rule Suc.IH) (simp_all add: Suc.prems)
    then show ?thesis using st True by (auto intro: fsteps.step)
  next
    case False
    then have "(threads s)[i := read_run (Suc n) (proc (base s)) r] = threads s"
      using Suc.prems by (metis list_update_id read_run.simps(2))
    then show ?thesis by (simp add: fsteps.refl)
  qed
qed

text \<open>Uninterrupted, the seven reads compute exactly the atomic report's fields.\<close>

lemma read_run_new_thread:
  "rt_pc (read_run 7 p (new_thread l)) = RPrint \<and>
   rt_fields ((read_run 7 p (new_thread l))\<lparr>rt_time := now\<rparr>) = report_fields p l now"
  by (simp add: numeral_eq_Suc new_thread_def rt_read_def is_read_stage_def rt_fields_def report_fields_def
      rt_percentage_def percentage_def average_price_def current_price_def total_big_trades_def
      total_small_trades_def Let_def)

lemma read_run_first4:
  "price p \<noteq> [] \<Longrightarrow> read_run 4 p (new_thread l) =
     (new_thread l)\<lparr>rt_big := sum_list (bigTrade p), rt_small := sum_list (smallTrade p),
                    rt_sum := sum_list (price p), rt_pc := RDiv\<rparr>"
  by (simp add: numeral_eq_Suc new_thread_def rt_read_def is_read_stage_def)

lemma read_run_last3:
  "rt_pc r = RDiv \<Longrightarrow> price p \<noteq> [] \<Longrightarrow>
   read_run 3 p r = r\<lparr>rt_avg := rt_sum r / real (length (price p)), rt_cur := last (price p), rt_pc := RPrint\<rparr>"
  by (simp add: numeral_eq_Suc rt_read_def is_read_stage_def)

text \<open>A thread that has read everything prints its line and appends its record.\<close>

lemma report_finish:
  assumes "i < length (threads s)" "threads s ! i = r" "rt_pc r = RPrint"
  shows "fsteps s ((upd_base (\<lambda>b. b\<lparr>world := append_row (csv_file_name (proc b)) (rt_fields (r\<lparr>rt_time := now\<rparr>))
                      (py_print (format_cols (rt_fields (r\<lparr>rt_time := now\<rparr>))) (world b))\<rparr>) s)
                   \<lparr>threads := take i (threads s) @ drop (Suc i) (threads s)\<rparr>)"
proof -
  let ?r' = "r\<lparr>rt_time := now, rt_pc := RWrite\<rparr>"
  let ?s1 = "(upd_base (\<lambda>b. b\<lparr>world := py_print (format_cols (rt_fields ?r')) (world b)\<rparr>) s)\<lparr>threads := (threads s)[i := ?r']\<rparr>"
  have st1: "fstep s ?s1"
    using fstep.report_print [of i s now] assms by (simp add: Let_def)
  let ?s2 = "(upd_base (\<lambda>b. b\<lparr>world := append_row (csv_file_name (proc b)) (rt_fields ?r') (world b)\<rparr>) ?s1)
               \<lparr>threads := take i (threads ?s1) @ drop (Suc i) (threads ?s1)\<rparr>"
  have st2: "fstep ?s1 ?s2"
    using fstep.report_write [of i ?s1] assms by simp
  have eq: "?s2 = (upd_base (\<lambda>b. b\<lparr>world := append_row (csv_file_name (proc b)) (rt_fields (r\<lparr>rt_time := now\<rparr>))
                      (py_print (format_cols (rt_fields (r\<lparr>rt_time := now\<rparr>))) (world b))\<rparr>) s)
                   \<lparr>threads := take i (threads s) @ drop (Suc i) (threads s)\<rparr>"
    by (simp add: upd_base_def)
  show ?thesis
    using fsteps.step [OF st1 fsteps_one [OF st2]] by (simp only: eq)
qed

subsection \<open>The atomic steps are schedules of the fine-grained program\<close>

lemma on_tick_split:
  assumes "commits p c"
  shows "on_tick p c v = msg_second_half (msg_first_half p c) (c, v, c * normalize_volume (prev_v p) v)"
  using assms by (simp add: on_tick_def commit_trade_def commits_def msg_first_half_def msg_second_half_def Let_def)

lemma deliver_commit:
  assumes "parse_tick d = Some (c, v)" "commits (proc s) c"
  shows "deliver s d = s\<lparr>proc := msg_second_half (msg_first_half (proc s) c) (c, v, c * normalize_volume (prev_v (proc s)) v)\<rparr>"
  using assms on_tick_split by (simp add: deliver_def on_message_Inr_iff [THEN iffD2])

lemma fire_simulated:
  assumes "t \<in> set (pending s)" "snd t \<le> clock s"
  shows "fsteps (lift s) (lift (fire s t now))"
proof -
  let ?l = "fst t"
  let ?s1 = "(upd_base (\<lambda>b. b\<lparr>pending := remove1 t (pending b)\<rparr>) (lift s))\<lparr>threads := [new_thread ?l]\<rparr>"
  have st1: "fstep (lift s) ?s1"
    using fstep.timer_start [of t "lift s"] assms by (simp add: lift_def upd_base_def)
  let ?r = "read_run 7 (proc s) (new_thread ?l)"
  have st2: "fsteps ?s1 (?s1\<lparr>threads := [?r]\<rparr>)"
    using fsteps_reads [of 0 ?s1 "new_thread ?l" 7] by (simp add: upd_base_def lift_def)
  have st3: "fsteps (?s1\<lparr>threads := [?r]\<rparr>)
    ((upd_base (\<lambda>b. b\<lparr>world := append_row (csv_file_name (proc b)) (rt_fields (?r\<lparr>rt_time := now\<rparr>))
       (py_print (format_cols (rt_fields (?r\<lparr>rt_time := now\<rparr>))) (world b))\<rparr>) (?s1\<lparr>threads := [?r]\<rparr>))
       \<lparr>threads := []\<rparr>)" (is "fsteps _ ?s3")
    using report_finish [of 0 "?s1\<lparr>threads := [?r]\<rparr>" ?r now] read_run_new_thread by simp
  have eq: "?s3 = lift (fire s t now)"
    unfolding read_run_new_thread [THEN conjunct2]
    by (simp add: lift_def upd_base_def fire_def calculate_and_display_fields)
  show ?thesis
    using fsteps.step [OF st1 fsteps_trans [OF st2 st3]] by (simp only: eq)
qed

lemma message_simulated:
  assumes "conn s = Open" "\<forall>x. on_message (proc s) d \<noteq> Inl (NonFiniteValue x)"
  shows "fsteps (lift s) (lift (deliver s d))"
proof (cases "\<exists>c v. parse_tick d = Some (c, v) \<and> commits (proc s) c")
  case True
  then obtain c v where pt: "parse_tick d = Some (c, v)" and cm: "commits (proc s) c" by blast
  let ?x = "(c, v, c * normalize_volume (prev_v (proc s)) v)"
  let ?s1 = "(upd_base (\<lambda>b. b\<lparr>proc := msg_first_half (proc b) c\<rparr>) (lift s))\<lparr>inflight := Some ?x\<rparr>"
  have st1: "fstep (lift s) ?s1"
    using fstep.message_commit [of "lift s" d c v] assms pt cm by simp
  let ?s2 = "(upd_base (\<lambda>b. b\<lparr>proc := msg_second_half (proc b) ?x\<rparr>) ?s1)\<lparr>inflight := None\<rparr>"
  have st2: "fstep ?s1 ?s2"
    using fstep.message_finish [of ?s1 ?x] by simp
  have eq: "?s2 = lift (deliver s d)"
    using deliver_commit [OF pt cm] by (simp add: lift_def upd_base_def)
  show ?thesis
    using fsteps.step [OF st1 fsteps_one [OF st2]] by (simp only: eq)
next
  case False
  then have "fstep (lift s) (upd_base (\<lambda>b. deliver b d) (lift s))"
    using fstep.message_atomic [of "lift s" d] assms by auto
  then show ?thesis by (simp add: upd_base_lift fsteps_one)
qed

lemma sys_step_simulated: "sys_step s s' \<Longrightarrow> fsteps (lift s) (lift s')"
proof (induction rule: sys_step.induct)
  case (message s d)
  then show ?case by (rule message_simulated)
next
  case (timer t s now)
  then show ?case by (rule fire_simulated)
next
  case (open_conn s)
  then show ?case using fstep.open_conn [of "lift s"] by (simp add: upd_base_lift fsteps_one)
next
  case (close s)
  then show ?case using fstep.close [of "lift s"] by (simp add: upd_base_lift fsteps_one)
next
  case (transport_error s e)
  then show ?case using fstep.transport_error [of "lift s" e] by (simp add: upd_base_lift fsteps_one)
next
  case (tick s)
  then show ?case using fstep.tick [of "lift s"] by (simp add: upd_base_lift fsteps_one)
qed

lemma reachable_freachable: "reachable s \<Longrightarrow> freachable (lift s)"
proof (induction rule: reachable.induct)
  case (start now w)
  then show ?case by (rule freachable.start)
next
  case (step s s')
  then show ?case using sys_step_simulated freachable_fsteps by blast
qed

subsection \<open>The invariant and the accumulator's lists\<close>

lemma handle_inv: "proc_inv p \<Longrightarrow> proc_inv (handle p d)"
  by (simp add: handle_parse_tick on_tick_inv split: option.splits)

lemma finv_same: "finv s \<Longrightarrow> inflight s' = inflight s \<Longrightarrow> proc (base s') = proc (base s) \<Longrightarrow> finv s'"
  unfolding finv_def by (simp only:)

lemma fstep_finv: "fstep s s' \<Longrightarrow> finv s \<Longrightarrow> finv s'"
proof (induction rule: fstep.induct)
  case (message_atomic s d)
  then show ?case by (simp add: finv_def upd_base_def handle_deliver handle_inv)
next
  case (message_commit s d c v)
  then show ?case by (auto simp: finv_def upd_base_def)
next
  case (message_finish s x)
  obtain c v tv where x: "x = (c, v, tv)" by (cases x) blast
  with message_finish obtain p0 where "proc_inv p0" "commits p0 c" "proc (base s) = msg_first_half p0 c"
    "tv = c * normalize_volume (prev_v p0) v"
    by (auto simp: finv_def)
  then show ?case using x on_tick_split [of p0 c v] on_tick_inv [of p0 c v]
    by (simp add: finv_def upd_base_def)
qed (auto simp: finv_same upd_base_def Let_def)

lemma freachable_finv: "freachable s \<Longrightarrow> finv s"
proof (induction rule: freachable.induct)
  case (start now w)
  then show ?case by (simp add: finv_def start_processing_def Let_def proc_inv_init)
next
  case (step s s')
  then show ?case using fstep_finv by blast
qed

lemma msg_second_half_prefixes:
  "prefix (price p) (price (msg_second_half p x)) \<and> prefix (bigTrade p) (bigTrade (msg_second_half p x)) \<and>
   prefix (smallTrade p) (smallTrade (msg_second_half p x))"
  by (cases x) (simp add: msg_second_half_def)

lemma handle_prefixes:
  "prefix (price p) (price (handle p d)) \<and> prefix (bigTrade p) (bigTrade (handle p d)) \<and>
   prefix (smallTrade p) (smallTrade (handle p d))"
  using on_message_prefixes [of p d] by (simp add: handle_def split: sum.splits)

subsection \<open>The torn run\<close>

lemma proc_torn_start:
  "proc torn_start = init_processor\<lparr>previous_price := Some 105, prev_v := Some 15, price := [105],
                                    smallTrade := [525]\<rparr>"
  by (simp add: torn_start_def handle_deliver boot_fields handle_def on_message_def float_field_ticker
      py_float_def parse_eval on_tick_def commit_trade_def normalize_volume_def init_processor_def
      py_round2_def round_half_even_def big_trade_threshold_def Let_def)

lemma torn_start_fields:
  "conn torn_start = Open" "pending torn_start = intervals_table" "clock torn_start = 20"
  "csv_file_name (proc torn_start) = ''trade_data.csv''"
  by (simp_all add: torn_start_def boot_fields init_processor_def) (simp add: deliver_def split: sum.splits)

lemma reachable_torn_start: "reachable torn_start"
proof -
  let ?s1 = "boot\<lparr>conn := Open, sent := on_open (sent boot)\<rparr>"
  have r1: "reachable ?s1"
    using reachable.step [OF reachable.start sys_step.open_conn] boot_fields unfolding boot_def by simp
  have r2: "reachable (deliver ?s1 (ticker ''100'' ''10''))"
    by (rule reachable.step [OF r1 sys_step.message])
      (simp_all add: on_message_def float_field_ticker py_float_def parse_eval)
  have r3: "reachable (deliver (deliver ?s1 (ticker ''100'' ''10'')) (ticker ''105'' ''15''))"
    by (rule reachable.step [OF r2 sys_step.message])
      (simp_all add: deliver_def on_message_def float_field_ticker py_float_def parse_eval split: sum.splits)
  show ?thesis
    using reachable_ticks [OF r3, of 20]
    by (simp add: torn_start_def boot_fields intervals_table_def)
qed

text \<open>The tick (110, 12) on the accumulator of \<open>torn_start\<close>: it commits a trade of 110 * 3.\<close>

lemma torn_commit:
  assumes "proc (base s) = proc torn_start" "conn (base s) = Open" "inflight s = None"
  shows "fstep s ((upd_base (\<lambda>b. b\<lparr>proc := msg_first_half (proc b) 110\<rparr>) s)\<lparr>inflight := Some (110, 12, 330)\<rparr>)"
proof -
  have nv: "110 * normalize_volume (prev_v (proc torn_start)) 12 = 330"
    by (simp add: proc_torn_start normalize_volume_def py_round2_def round_half_even_def)
  show ?thesis
    using fstep.message_commit [of s "ticker ''110'' ''12''" 110 12] nv assms
    by (simp add: parse_tick_def float_field_ticker py_float_def parse_eval commits_def proc_torn_start)
qed

lemma torn_thread:
  "rt_fields ((read_run 3 (msg_first_half (proc torn_start) 110) (read_run 4 (proc torn_start) (new_thread ''15 m'')))
     \<lparr>rt_time := ''11-09-2026 01:57:20''\<rparr>) = torn_row \<and>
   rt_pc (read_run 3 (msg_first_half (proc torn_start) 110) (read_run 4 (proc torn_start) (new_thread ''15 m''))) = RPrint"
proof -
  have r4: "read_run 4 (proc torn_start) (new_thread ''15 m'') =
     (new_thread ''15 m'')\<lparr>rt_big := 0, rt_small := 525, rt_sum := 105, rt_pc := RDiv\<rparr>"
    by (simp add: read_run_first4 proc_torn_start init_processor_def)
  have r7: "read_run 3 (msg_first_half (proc torn_start) 110)
              ((new_thread ''15 m'')\<lparr>rt_big := 0, rt_small := 525, rt_sum := 105, rt_pc := RDiv\<rparr>) =
     (new_thread ''15 m'')\<lparr>rt_big := 0, rt_small := 525, rt_sum := 105, rt_avg := 105 / 2, rt_cur := 110,
                           rt_pc := RPrint\<rparr>"
    by (simp add: read_run_last3 proc_torn_start)
  have f: "format_trade_value 0 = ''0.00''" "format_trade_value 525 = ''525.00''" "fmt2 (105 / 2) = ''52.50''"
    "fmt2 (2300 / 21) = ''109.52''"
    by (simp_all add: format_trade_value_def fmt2_eval)
  show ?thesis
    unfolding r4 r7 by (simp add: rt_fields_def rt_percentage_def new_thread_def torn_row_def f)
qed

lemma torn_run: "fsteps (lift torn_start) torn_state"
proof -
  let ?P = "proc torn_start"
  let ?s1 = "(upd_base (\<lambda>b. b\<lparr>pending := remove1 (''15 m'', 20) (pending b)\<rparr>) (lift torn_start))
               \<lparr>threads := [new_thread ''15 m'']\<rparr>"
  have st1: "fstep (lift torn_start) ?s1"
    using fstep.timer_start [of "(''15 m'', 20)" "lift torn_start"]
    by (simp add: torn_start_fields intervals_table_def)
  let ?r4 = "read_run 4 ?P (new_thread ''15 m'')"
  let ?s2 = "?s1\<lparr>threads := [?r4]\<rparr>"
  have st2: "fsteps ?s1 ?s2"
    using fsteps_reads [of 0 ?s1 "new_thread ''15 m''" 4] by (simp add: upd_base_def)
  let ?s3 = "(upd_base (\<lambda>b. b\<lparr>proc := msg_first_half (proc b) 110\<rparr>) ?s2)\<lparr>inflight := Some (110, 12, 330)\<rparr>"
  have st3: "fstep ?s2 ?s3"
    by (rule torn_commit) (simp_all add: upd_base_def torn_start_fields)
  let ?r7 = "read_run 3 (msg_first_half ?P 110) ?r4"
  let ?s4 = "?s3\<lparr>threads := [?r7]\<rparr>"
  have st4: "fsteps ?s3 ?s4"
    using fsteps_reads [of 0 ?s3 ?r4 3] by (simp add: upd_base_def)
  let ?now = "''11-09-2026 01:57:20''"
  have st5: "fsteps ?s4 ((upd_base (\<lambda>b. b\<lparr>world := append_row (csv_file_name (proc b)) (rt_fields (?r7\<lparr>rt_time := ?now\<rparr>))
                      (py_print (format_cols (rt_fields (?r7\<lparr>rt_time := ?now\<rparr>))) (world b))\<rparr>) ?s4)
                   \<lparr>threads := []\<rparr>)" (is "fsteps _ ?s5")
    using report_finish [of 0 ?s4 ?r7 ?now] torn_thread by simp
  have eq: "?s5 = torn_state"
    unfolding torn_thread [THEN conjunct1]
    by (simp add: upd_base_def lift_def torn_state_def torn_start_fields intervals_table_def msg_first_half_def)
  show ?thesis
    using fsteps.step [OF st1 fsteps_trans [OF st2 fsteps.step [OF st3 fsteps_trans [OF st4 st5]]]]
    by (simp only: eq)
qed

lemma freachable_torn_state: "freachable torn_state"
  using freachable_fsteps [OF torn_run reachable_freachable [OF reachable_torn_start]] .

subsection \<open>Completion of a report thread\<close>

lemma read_run_reaches_print: "rt_pc r \<noteq> RWrite \<Longrightarrow> rt_pc (read_run 7 p r) = RPrint"
  by (cases "rt_pc r") (simp_all add: numeral_eq_Suc rt_read_def is_read_stage_def)

lemma report_write_step:
  assumes "i < length (threads s)" "rt_pc (threads s ! i) = RWrite"
  shows "\<exists>s'. fsteps s s' \<and> threads s' = take i (threads s) @ drop (Suc i) (threads s) \<and> proc (base s') = proc (base s)"
  using fsteps_one [OF fstep.report_write [OF assms]] by (auto simp: upd_base_def)

section \<open>Properties\<close>

text \<open>
  Simulation. Every step of the atomic program of \<open>Scheduler\<close> is a
  sequence of fine-grained steps: a committing message is its two halves in a
  row, a timer is a report thread started, run to the end and removed, and the
  other events are the same step. The atomic model is one schedule of the real
  threaded program, so what it reaches the program can reach.
\<close>

theorem atomic_is_a_schedule: "sys_step s s' \<Longrightarrow> fsteps (lift s) (lift s')"
  by (rule sys_step_simulated)

theorem atomic_is_a_schedule_witness:
  "sys_step torn_start (fire torn_start (''15 m'', 20) ''11-09-2026 01:57:20'') \<and>
   fsteps (lift torn_start) (lift (fire torn_start (''15 m'', 20) ''11-09-2026 01:57:20''))"
proof -
  have st: "sys_step torn_start (fire torn_start (''15 m'', 20) ''11-09-2026 01:57:20'')"
    by (rule sys_step.timer) (simp_all add: torn_start_fields intervals_table_def)
  show ?thesis using st atomic_is_a_schedule [OF st] by blast
qed

text \<open>
  C24: Even at the granularity of bytecodes, no step of any thread removes or
  changes an entry of \<open>price\<close>, \<open>bigTrade\<close> or \<open>smallTrade\<close>: each list
  only grows at its end.
\<close>

theorem fine_append_only:
  assumes "fstep s s'"
  shows "prefix (price (proc (base s))) (price (proc (base s'))) \<and>
         prefix (bigTrade (proc (base s))) (bigTrade (proc (base s'))) \<and>
         prefix (smallTrade (proc (base s))) (smallTrade (proc (base s')))"
  using assms
proof cases
  case (message_atomic d)
  then show ?thesis by (simp add: upd_base_def handle_deliver handle_prefixes)
next
  case (message_finish x)
  then show ?thesis by (simp add: upd_base_def msg_second_half_prefixes)
qed (auto simp: upd_base_def Let_def)

theorem fine_append_only_witness:
  "fstep (lift torn_start)
     ((upd_base (\<lambda>b. b\<lparr>proc := msg_first_half (proc b) 110\<rparr>) (lift torn_start))\<lparr>inflight := Some (110, 12, 330)\<rparr>) \<and>
   prefix (price (proc torn_start)) (price (proc torn_start) @ [110]) \<and>
   prefix (bigTrade (proc torn_start)) (bigTrade (proc torn_start)) \<and>
   prefix (smallTrade (proc torn_start)) (smallTrade (proc torn_start))"
proof -
  have st: "fstep (lift torn_start)
     ((upd_base (\<lambda>b. b\<lparr>proc := msg_first_half (proc b) 110\<rparr>) (lift torn_start))\<lparr>inflight := Some (110, 12, 330)\<rparr>)"
    by (rule torn_commit) (simp_all add: torn_start_fields)
  show ?thesis using st fine_append_only [OF st] by (simp add: upd_base_def)
qed

text \<open>
  C25: In every state the threaded program reaches, \<open>price\<close> has one entry
  per committed trade, plus one while a committing message is between line 114
  and line 118/120. So the equation \<open>len(price) = len(bigTrade) +
  len(smallTrade)\<close> of the atomic model (C5) holds in the threaded program only
  between messages, and a report can observe the gap.
\<close>

theorem fine_partition_gap:
  assumes "freachable s"
  shows "length (price (proc (base s))) =
           length (bigTrade (proc (base s))) + length (smallTrade (proc (base s))) +
           (if inflight s = None then 0 else 1)"
  using freachable_finv [OF assms]
  by (auto simp: finv_def proc_inv_def split: option.splits)

theorem fine_partition_gap_witness:
  "freachable torn_state \<and> inflight torn_state \<noteq> None \<and>
   length (price (proc (base torn_state))) =
     length (bigTrade (proc (base torn_state))) + length (smallTrade (proc (base torn_state))) + 1"
  using freachable_torn_state fine_partition_gap [OF freachable_torn_state]
  by (simp add: torn_state_def)

text \<open>
  C26: The torn read. A reachable state of the threaded program in which the
  first report (\<open>15 m\<close>) has been written with an average price of 52.50
  and a change of 109.52%, while the prices ever recorded are 105 and 110: the
  report summed \<open>self.price\<close> when it held [105] and divided by its length
  after the next tick had appended 110. Before that tick the atomic report
  shows 105.00, after it 107.50; the record written is neither.
\<close>

theorem torn_read:
  "freachable torn_state \<and> price (proc (base torn_state)) = [105, 110] \<and>
   files (world (base torn_state)) ''trade_data.csv'' =
     Some [header_row, [''11-09-2026 01:57:20'', ''15 m'', ''0.00'', ''525.00'', ''52.50'', ''109.52%'']] \<and>
   fmt2 (average_price (proc torn_start)) = ''105.00'' \<and>
   fmt2 (average_price (proc (base torn_state))) = ''107.50''"
proof -
  have w: "files (world torn_start) ''trade_data.csv'' = Some [header_row]"
    by (simp add: torn_start_def boot_fields)
  have f: "files (world (base torn_state)) ''trade_data.csv'' = Some [header_row, torn_row]"
    by (simp add: torn_state_def append_row_def w)
  have p: "price (proc (base torn_state)) = [105, 110]"
    by (simp add: torn_state_def proc_torn_start)
  have a: "average_price (proc torn_start) = 105" "average_price (proc (base torn_state)) = 107.5"
    by (simp_all add: average_price_def p) (simp add: proc_torn_start)
  have g: "fmt2 105 = ''105.00''" "fmt2 107.5 = ''107.50''"
    by (simp_all add: fmt2_eval)
  show ?thesis
    using freachable_torn_state f p unfolding a g torn_row_def by simp
qed

text \<open>
  Termination of a report. Whatever stage a report thread is at and
  whatever the feed has done meanwhile, the thread finishes: at most seven
  reads, the print and the write, each always enabled, remove it from the
  running threads, and none of them changes the accumulator.
\<close>

theorem report_thread_completes:
  assumes "i < length (threads s)"
  shows "\<exists>s'. fsteps s s' \<and> threads s' = take i (threads s) @ drop (Suc i) (threads s) \<and>
              proc (base s') = proc (base s)"
proof (cases "rt_pc (threads s ! i) = RWrite")
  case True
  then show ?thesis using report_write_step [OF assms] by blast
next
  case False
  let ?r = "read_run 7 (proc (base s)) (threads s ! i)"
  let ?s1 = "s\<lparr>threads := (threads s)[i := ?r]\<rparr>"
  have st1: "fsteps s ?s1" using fsteps_reads [OF assms HOL.refl] .
  have pc: "rt_pc ?r = RPrint" using False by (rule read_run_reaches_print)
  have st2: "fsteps ?s1 ((upd_base (\<lambda>b. b\<lparr>world := append_row (csv_file_name (proc b)) (rt_fields (?r\<lparr>rt_time := []\<rparr>))
                      (py_print (format_cols (rt_fields (?r\<lparr>rt_time := []\<rparr>))) (world b))\<rparr>) ?s1)
                   \<lparr>threads := take i (threads ?s1) @ drop (Suc i) (threads ?s1)\<rparr>)" (is "fsteps _ ?s2")
    by (rule report_finish) (simp_all add: assms pc)
  have "threads ?s2 = take i (threads s) @ drop (Suc i) (threads s)" "proc (base ?s2) = proc (base s)"
    using assms by (simp_all add: upd_base_def)
  then show ?thesis using fsteps_trans [OF st1 st2] by blast
qed

theorem report_thread_completes_witness:
  "0 < length (threads ((upd_base (\<lambda>b. b\<lparr>pending := remove1 (''15 m'', 20) (pending b)\<rparr>) (lift torn_start))
                          \<lparr>threads := [new_thread ''15 m'']\<rparr>)) \<and>
   (\<exists>s'. fsteps ((upd_base (\<lambda>b. b\<lparr>pending := remove1 (''15 m'', 20) (pending b)\<rparr>) (lift torn_start))
                          \<lparr>threads := [new_thread ''15 m'']\<rparr>) s' \<and> threads s' = [] \<and> proc (base s') = proc torn_start)"
  using report_thread_completes [of 0 "(upd_base (\<lambda>b. b\<lparr>pending := remove1 (''15 m'', 20) (pending b)\<rparr>) (lift torn_start))
                          \<lparr>threads := [new_thread ''15 m'']\<rparr>"]
  by (simp add: upd_base_def)

end
