(* ===== verification/Csv.thy ===== *)
theory Csv
  imports Reporter
begin

text \<open>
  The bytes \<open>write_to_csv\<close> (\<open>src/main.py\<close> lines 40-60) and \<open>start_processing\<close>
  (lines 139-150) put into \<open>trade_data.csv\<close>. Both open the file with
  \<open>newline=""\<close> and call \<open>csv.writer(file).writerow(row)\<close> with the default
  dialect: delimiter \<open>,\<close>, quote character \<open>"\<close> doubled inside a quoted field,
  \<open>QUOTE_MINIMAL\<close>, line terminator \<open>\r\n\<close>. The writer is modelled from
  CPython's \<open>_csv.c\<close> (\<open>join_append\<close>, \<open>writerow\<close>). So is the reader a consumer
  of the log would use, \<open>csv.reader(open(name, newline=""))\<close>: the file
  object's line splitting (\<open>\n\<close>, \<open>\r\n\<close> and a lone \<open>\r\<close> end a line, kept
  in the line) and the state machine of \<open>parse_process_char\<close>, with the
  field size limit and the error on a character after a line end. The theory
  proves that the reader reads back every list of records the writer wrote,
  that the line-based reader equals a character-stream formulation of it, and
  that the program's own records are written without quoting.
\<close>

section \<open>The writer\<close>

text \<open>The characters that make \<open>QUOTE_MINIMAL\<close> quote a field.\<close>

definition csv_special :: "char \<Rightarrow> bool" where
  "csv_special c \<longleftrightarrow> c = CHR '','' \<or> c = CHR 0x22 \<or> c = CHR 0x0D \<or> c = CHR 0x0A"

definition csv_quote_needed :: "string \<Rightarrow> bool" where
  "csv_quote_needed f \<longleftrightarrow> list_ex csv_special f"

text \<open>\<open>doublequote=True\<close>: a quote character inside a quoted field is written twice.\<close>

definition csv_escape :: "string \<Rightarrow> string" where
  "csv_escape f = concat (map (\<lambda>c. if c = CHR 0x22 then [c, c] else [c]) f)"

definition csv_field :: "string \<Rightarrow> string" where
  "csv_field f = (if csv_quote_needed f then CHR 0x22 # csv_escape f @ [CHR 0x22] else f)"

fun csv_join :: "string list \<Rightarrow> string" where
  "csv_join [] = []"
| "csv_join [f] = csv_field f"
| "csv_join (f # fs) = csv_field f @ CHR '','' # csv_join fs"

text \<open>
  \<open>writerow\<close>: the joined fields and the terminator; a record of one empty
  field is written \<open>""\<close>, so that it is not read back as an empty line.
\<close>

definition csv_line :: "string list \<Rightarrow> string" where
  "csv_line fs =
     (if fs \<noteq> [] \<and> csv_join fs = [] then [CHR 0x22, CHR 0x22] else csv_join fs) @ [CHR 0x0D, CHR 0x0A]"

text \<open>The text of a file holding these records, written one \<open>writerow\<close> after the other.\<close>

definition csv_text :: "csv_row list \<Rightarrow> string" where
  "csv_text rows = concat (map csv_line rows)"

section \<open>The reader\<close>

text \<open>The states of \<open>parse_process_char\<close>; \<open>EOL\<close> is the end-of-line mark fed after each line.\<close>

datatype rd_state = StartRecord | StartField | InField | InQuotedField | QuoteInQuotedField | EatCRNL

datatype rd_in = Ch char | EOL

record reader =
  rd_st :: rd_state
  rd_field :: string
  rd_fields :: "string list"

text \<open>\<open>csv.field_size_limit()\<close> by default.\<close>

definition field_limit :: nat where
  "field_limit = 131072"

text \<open>\<open>parse_save_field\<close> and \<open>parse_add_char\<close> (the field is kept reversed).\<close>

definition save_field :: "reader \<Rightarrow> reader" where
  "save_field r = r\<lparr>rd_field := [], rd_fields := rd_fields r @ [rev (rd_field r)]\<rparr>"

definition add_char :: "char \<Rightarrow> reader \<Rightarrow> reader option" where
  "add_char c r = (if length (rd_field r) < field_limit then Some (r\<lparr>rd_field := c # rd_field r\<rparr>) else None)"

definition is_nl :: "rd_in \<Rightarrow> bool" where
  "is_nl x \<longleftrightarrow> x = Ch (CHR 0x0A) \<or> x = Ch (CHR 0x0D)"

definition set_st :: "rd_state \<Rightarrow> reader \<Rightarrow> reader" where
  "set_st st r = r\<lparr>rd_st := st\<rparr>"

definition start_field :: "reader \<Rightarrow> rd_in \<Rightarrow> reader option" where
  "start_field r x =
     (if is_nl x \<or> x = EOL then Some (set_st (if x = EOL then StartRecord else EatCRNL) (save_field r))
      else if x = Ch (CHR 0x22) then Some (set_st InQuotedField r)
      else if x = Ch (CHR '','') then Some (set_st StartField (save_field r))
      else (case x of Ch c \<Rightarrow> map_option (set_st InField) (add_char c r) | EOL \<Rightarrow> Some r))"

text \<open>One character (or the end of a line) in each state; \<open>None\<close> is \<open>csv.Error\<close>.\<close>

definition process_char :: "reader \<Rightarrow> rd_in \<Rightarrow> reader option" where
  "process_char r x =
     (case rd_st r of
        StartRecord \<Rightarrow>
          if x = EOL then Some r
          else if is_nl x then Some (set_st EatCRNL r)
          else start_field r x
      | StartField \<Rightarrow> start_field r x
      | InField \<Rightarrow>
          if is_nl x \<or> x = EOL then Some (set_st (if x = EOL then StartRecord else EatCRNL) (save_field r))
          else if x = Ch (CHR '','') then Some (set_st StartField (save_field r))
          else (case x of Ch c \<Rightarrow> add_char c r | EOL \<Rightarrow> Some r)
      | InQuotedField \<Rightarrow>
          if x = EOL then Some r
          else if x = Ch (CHR 0x22) then Some (set_st QuoteInQuotedField r)
          else (case x of Ch c \<Rightarrow> add_char c r | EOL \<Rightarrow> Some r)
      | QuoteInQuotedField \<Rightarrow>
          if x = Ch (CHR 0x22) then map_option (set_st InQuotedField) (add_char (CHR 0x22) r)
          else if x = Ch (CHR '','') then Some (set_st StartField (save_field r))
          else if is_nl x \<or> x = EOL then Some (set_st (if x = EOL then StartRecord else EatCRNL) (save_field r))
          else (case x of Ch c \<Rightarrow> map_option (set_st InField) (add_char c r) | EOL \<Rightarrow> Some r)
      | EatCRNL \<Rightarrow>
          if is_nl x then Some r
          else if x = EOL then Some (set_st StartRecord r)
          else None)"

fun process_all :: "reader \<Rightarrow> rd_in list \<Rightarrow> reader option" where
  "process_all r [] = Some r"
| "process_all r (x # xs) = (case process_char r x of None \<Rightarrow> None | Some r' \<Rightarrow> process_all r' xs)"

text \<open>The lines of a file opened with \<open>newline=""\<close>: each keeps its terminator.\<close>

fun split_acc :: "string \<Rightarrow> string \<Rightarrow> string list" where
  "split_acc cur [] = (if cur = [] then [] else [rev cur])"
| "split_acc cur (c # s) =
     (if c = CHR 0x0A then rev (c # cur) # split_acc [] s
      else if c = CHR 0x0D then
        (case s of
           d # s' \<Rightarrow> if d = CHR 0x0A then rev (d # c # cur) # split_acc [] s' else rev (c # cur) # split_acc [] s
         | [] \<Rightarrow> [rev (c # cur)])
      else split_acc (c # cur) s)"

definition split_lines :: "string \<Rightarrow> string list" where
  "split_lines s = split_acc [] s"

definition reader_init :: reader where
  "reader_init = \<lparr>rd_st = StartRecord, rd_field = [], rd_fields = []\<rparr>"

text \<open>
  \<open>Reader_iternext\<close>: lines are fed until the state is back at the start of a
  record, which is then returned; at the end of the file a field still open
  (or an open quoted field) ends the last record.
\<close>

fun read_lines :: "reader \<Rightarrow> string list \<Rightarrow> csv_row list option" where
  "read_lines r [] =
     (if rd_field r \<noteq> [] \<or> rd_st r = InQuotedField then Some [rd_fields (save_field r)] else Some [])"
| "read_lines r (l # ls) =
     (case process_all r (map Ch l @ [EOL]) of
        None \<Rightarrow> None
      | Some r' \<Rightarrow>
          if rd_st r' = StartRecord then map_option (Cons (rd_fields r')) (read_lines (r'\<lparr>rd_fields := []\<rparr>) ls)
          else read_lines r' ls)"

definition csv_read :: "string \<Rightarrow> csv_row list option" where
  "csv_read s = read_lines reader_init (split_lines s)"

text \<open>
  The same reader over the characters of the file, with the end-of-line mark
  inserted after each line terminator: \<open>b\<close> says whether the current line has
  begun.
\<close>

fun stream :: "reader \<Rightarrow> bool \<Rightarrow> string \<Rightarrow> csv_row list option" where
  "stream r b [] =
     (if b then
        (case process_char r EOL of
           None \<Rightarrow> None
         | Some r2 \<Rightarrow> if rd_st r2 = StartRecord then map_option (Cons (rd_fields r2)) (read_lines (r2\<lparr>rd_fields := []\<rparr>) [])
                     else read_lines r2 [])
      else read_lines r [])"
| "stream r b (c # s) =
     (case process_char r (Ch c) of
        None \<Rightarrow> None
      | Some r1 \<Rightarrow>
          if c = CHR 0x0A \<or> (c = CHR 0x0D \<and> (s = [] \<or> hd s \<noteq> CHR 0x0A)) then
            (case process_char r1 EOL of
               None \<Rightarrow> None
             | Some r2 \<Rightarrow> if rd_st r2 = StartRecord then map_option (Cons (rd_fields r2)) (stream (r2\<lparr>rd_fields := []\<rparr>) False s)
                         else stream r2 False s)
          else stream r1 True s)"

abbreviation at_field_start :: "reader \<Rightarrow> bool" where
  "at_field_start r \<equiv> (rd_st r = StartRecord \<or> rd_st r = StartField) \<and> rd_field r = []"

section \<open>Lemmas\<close>

subsection \<open>Reading by lines is reading by characters\<close>


lemma process_all_append:
  "process_all r (xs @ ys) = (case process_all r xs of None \<Rightarrow> None | Some r' \<Rightarrow> process_all r' ys)"
  by (induction xs arbitrary: r) (auto split: option.splits)


lemma read_lines_prefix:
  assumes "process_all r0 (map Ch (rev cur)) = Some r"
  shows "read_lines r0 ((rev cur @ l) # ls) =
     (case process_all r (map Ch l @ [EOL]) of
        None \<Rightarrow> None
      | Some r' \<Rightarrow> if rd_st r' = StartRecord then map_option (Cons (rd_fields r')) (read_lines (r'\<lparr>rd_fields := []\<rparr>) ls)
                  else read_lines r' ls)"
  using assms by (simp add: process_all_append)

lemma read_lines_prefix_None:
  "process_all r0 (map Ch (rev cur)) = None \<Longrightarrow> read_lines r0 ((rev cur @ l) # ls) = None"
  by (simp add: process_all_append)

lemma split_acc_Cons:
  "split_acc cur (c # s) =
     (if c = CHR 0x0A then (rev cur @ [c]) # split_acc [] s
      else if c = CHR 0x0D \<and> s \<noteq> [] \<and> hd s = CHR 0x0A then (rev cur @ [c, CHR 0x0A]) # split_acc [] (tl s)
      else if c = CHR 0x0D then (rev cur @ [c]) # split_acc [] s
      else split_acc (c # cur) s)"
  by (cases s) auto

lemma split_acc_newline:
  "c = CHR 0x0A \<or> c = CHR 0x0D \<Longrightarrow> \<exists>l ls. split_acc cur (c # s) = (rev cur @ c # l) # ls"
  by (cases s) (auto split: if_split)

lemma read_lines_None:
  "process_all r0 (map Ch (rev cur)) = None \<Longrightarrow> read_lines r0 (split_acc cur s) = None"
proof (induction s arbitrary: cur)
  case Nil
  then have "cur \<noteq> []" by auto
  with Nil show ?case by (simp add: process_all_append)
next
  case (Cons c s)
  show ?case
  proof (cases "c = CHR 0x0A \<or> c = CHR 0x0D")
    case True
    then obtain l ls where sp: "split_acc cur (c # s) = (rev cur @ c # l) # ls"
      using split_acc_newline [OF True] by blast
    show ?thesis unfolding sp by (rule read_lines_prefix_None [OF Cons.prems])
  next
    case False
    then have e: "split_acc cur (c # s) = split_acc (c # cur) s" by simp
    have "process_all r0 (map Ch (rev (c # cur))) = None"
      using Cons.prems by (simp add: process_all_append)
    then show ?thesis unfolding e by (rule Cons.IH)
  qed
qed

lemma process_all_single: "process_all r [x] = process_char r x"
  by (cases "process_char r x") auto

lemma eol_read_lines:
  "(case process_all r (map Ch l @ [EOL]) of
      None \<Rightarrow> None
    | Some r' \<Rightarrow> if rd_st r' = StartRecord then map_option (Cons (rd_fields r')) (read_lines (r'\<lparr>rd_fields := []\<rparr>) ls)
                else read_lines r' ls) =
   (case process_all r (map Ch l) of
      None \<Rightarrow> None
    | Some r1 \<Rightarrow> (case process_char r1 EOL of
        None \<Rightarrow> None
      | Some r' \<Rightarrow> if rd_st r' = StartRecord then map_option (Cons (rd_fields r')) (read_lines (r'\<lparr>rd_fields := []\<rparr>) ls)
                  else read_lines r' ls))"
  by (simp add: process_all_append process_all_single split: option.split)

lemma read_lines_stream:
  "process_all r0 (map Ch (rev cur)) = Some r \<Longrightarrow> read_lines r0 (split_acc cur s) = stream r (cur \<noteq> []) s"
proof (induction cur s arbitrary: r0 r rule: split_acc.induct)
  case (1 cur)
  show ?case
  proof (cases "cur = []")
    case True
    with "1.prems" show ?thesis by simp
  next
    case False
    then have "read_lines r0 (split_acc cur []) = read_lines r0 ((rev cur @ []) # [])" by simp
    also have "\<dots> = stream r True []"
      unfolding read_lines_prefix [OF "1.prems"] eol_read_lines by (simp split: option.split)
    finally show ?thesis using False by simp
  qed
next
  case (2 cur c s)
  note P = "2.prems"
  show ?case
  proof (cases "process_char r (Ch c)")
    case None
    show ?thesis
    proof (cases "c = CHR 0x0A \<or> c = CHR 0x0D")
      case True
      obtain l ls where sp: "split_acc cur (c # s) = (rev cur @ c # l) # ls"
        using split_acc_newline [OF True] by blast
      show ?thesis unfolding sp read_lines_prefix [OF P] using None by simp
    next
      case False
      then have "process_all r0 (map Ch (rev (c # cur))) = None"
        using P None by (simp add: process_all_append)
      then show ?thesis using False None by (simp add: read_lines_None)
    qed
  next
    case (Some r1)
    consider (eol) "c = CHR 0x0A \<or> (c = CHR 0x0D \<and> (s = [] \<or> hd s \<noteq> CHR 0x0A))"
      | (crlf) s' where "c = CHR 0x0D" "s = CHR 0x0A # s'"
      | (other) "c \<noteq> CHR 0x0A" "c \<noteq> CHR 0x0D"
      by (cases s) auto
    then show ?thesis
    proof cases
      case eol
      have sp: "split_acc cur (c # s) = (rev cur @ [c]) # split_acc [] s"
        using eol by (cases s) auto
      have IH: "\<And>x. read_lines x (split_acc [] s) = stream x False s"
      proof -
        fix x
        show "read_lines x (split_acc [] s) = stream x False s"
        proof (cases "s = []")
          case True
          then show ?thesis by simp
        next
          case False
          then obtain d s' where s: "s = d # s'" by (cases s) auto
          show ?thesis
          proof (cases "c = CHR 0x0A")
            case True
            then show ?thesis using "2.IH"(1) [of x x] by simp
          next
            case False
            with eol s have "c = CHR 0x0D" "d \<noteq> CHR 0x0A" by auto
            then show ?thesis using "2.IH"(3) [of d s' x x] s by simp
          qed
        qed
      qed
      show ?thesis
        unfolding sp read_lines_prefix [OF P] eol_read_lines using Some eol
        by (simp add: IH split: option.split)
    next
      case crlf
      have sp: "split_acc cur (c # s) = (rev cur @ [c, CHR 0x0A]) # split_acc [] s'"
        using crlf by simp
      have IH: "\<And>x. read_lines x (split_acc [] s') = stream x False s'"
        using "2.IH"(2) crlf by simp
      show ?thesis
        unfolding sp read_lines_prefix [OF P] eol_read_lines using Some crlf
        by (simp add: IH split: option.split)
    next
      case other
      have "process_all r0 (map Ch (rev (c # cur))) = Some r1"
        using P Some by (simp add: process_all_append)
      then show ?thesis using "2.IH"(4) other Some by simp
    qed
  qed
qed

subsection \<open>The reader on what the writer wrote\<close>

lemma special_chars [simp]:
  "csv_special CHR '',''" "csv_special (CHR 0x22)" "csv_special (CHR 0x0D)" "csv_special (CHR 0x0A)"
  by (simp_all add: csv_special_def)

lemma not_special: "\<not> csv_special c \<Longrightarrow> c \<noteq> CHR '','' \<and> c \<noteq> CHR 0x22 \<and> c \<noteq> CHR 0x0D \<and> c \<noteq> CHR 0x0A"
  by (auto simp: csv_special_def)

lemmas reader_defs = process_char_def start_field_def is_nl_def set_st_def add_char_def

lemma pc_plain:
  "\<not> csv_special c \<Longrightarrow> rd_st r = InField \<Longrightarrow> length (rd_field r) < field_limit \<Longrightarrow>
     process_char r (Ch c) = Some (r\<lparr>rd_field := c # rd_field r\<rparr>)"
  "\<not> csv_special c \<Longrightarrow> rd_st r = StartRecord \<or> rd_st r = StartField \<Longrightarrow> length (rd_field r) < field_limit \<Longrightarrow>
     process_char r (Ch c) = Some (r\<lparr>rd_field := c # rd_field r, rd_st := InField\<rparr>)"
  by (auto simp: reader_defs dest!: not_special)

lemma pc_quoted:
  "rd_st r = StartRecord \<or> rd_st r = StartField \<Longrightarrow> process_char r (Ch (CHR 0x22)) = Some (r\<lparr>rd_st := InQuotedField\<rparr>)"
  "rd_st r = InQuotedField \<Longrightarrow> c \<noteq> CHR 0x22 \<Longrightarrow> length (rd_field r) < field_limit \<Longrightarrow>
     process_char r (Ch c) = Some (r\<lparr>rd_field := c # rd_field r\<rparr>)"
  "rd_st r = InQuotedField \<Longrightarrow> process_char r (Ch (CHR 0x22)) = Some (r\<lparr>rd_st := QuoteInQuotedField\<rparr>)"
  "rd_st r = QuoteInQuotedField \<Longrightarrow> length (rd_field r) < field_limit \<Longrightarrow>
     process_char r (Ch (CHR 0x22)) = Some (r\<lparr>rd_field := CHR 0x22 # rd_field r, rd_st := InQuotedField\<rparr>)"
  "rd_st r = InQuotedField \<Longrightarrow> process_char r EOL = Some r"
  by (auto simp: reader_defs)

lemma pc_delim:
  "rd_st r \<in> {StartRecord, StartField, InField, QuoteInQuotedField} \<Longrightarrow>
     process_char r (Ch CHR '','') = Some ((save_field r)\<lparr>rd_st := StartField\<rparr>)"
  "rd_st r \<in> {StartField, InField, QuoteInQuotedField} \<Longrightarrow>
     process_char r (Ch (CHR 0x0D)) = Some ((save_field r)\<lparr>rd_st := EatCRNL\<rparr>)"
  "rd_st r = StartRecord \<Longrightarrow> process_char r (Ch (CHR 0x0D)) = Some (r\<lparr>rd_st := EatCRNL\<rparr>)"
  "rd_st r = EatCRNL \<Longrightarrow> process_char r (Ch (CHR 0x0A)) = Some r"
  "rd_st r = EatCRNL \<Longrightarrow> process_char r EOL = Some (r\<lparr>rd_st := StartRecord\<rparr>)"
  by (auto simp: reader_defs)

lemma stream_plain:
  "rd_st r = InField \<Longrightarrow> \<not> list_ex csv_special g \<Longrightarrow> length (rd_field r) + length g \<le> field_limit \<Longrightarrow>
   stream r b (g @ rest) = stream (r\<lparr>rd_field := rev g @ rd_field r\<rparr>) (b \<or> g \<noteq> []) rest"
proof (induction g arbitrary: r b)
  case Nil
  then show ?case by simp
next
  case (Cons c g)
  then have "\<not> csv_special c" by simp
  then show ?case
    using Cons.IH [of "r\<lparr>rd_field := c # rd_field r\<rparr>" True] Cons.prems pc_plain(1) [of c r] not_special [of c]
    by simp
qed

lemma csv_escape_simps [simp]:
  "csv_escape [] = []"
  "csv_escape (c # g) = (if c = CHR 0x22 then [c, c] else [c]) @ csv_escape g"
  by (simp_all add: csv_escape_def)

lemma stream_quoted:
  "rd_st r = InQuotedField \<Longrightarrow> length (rd_field r) + length g \<le> field_limit \<Longrightarrow>
   stream r b (csv_escape g @ CHR 0x22 # rest) =
     stream (r\<lparr>rd_st := QuoteInQuotedField, rd_field := rev g @ rd_field r\<rparr>) True rest"
proof (induction g arbitrary: r b rule: length_induct)
  case (1 g)
  show ?case
  proof (cases g)
    case Nil
    then show ?thesis using "1.prems" by (simp add: pc_quoted)
  next
    case (Cons c g')
    have IH: "\<And>r b. rd_st r = InQuotedField \<Longrightarrow> length (rd_field r) + length g' \<le> field_limit \<Longrightarrow>
       stream r b (csv_escape g' @ CHR 0x22 # rest) =
       stream (r\<lparr>rd_st := QuoteInQuotedField, rd_field := rev g' @ rd_field r\<rparr>) True rest"
      using "1.IH" Cons by simp
    have lim: "length (rd_field r) < field_limit" using "1.prems" Cons by simp
    consider (q) "c = CHR 0x22" | (lf) "c = CHR 0x0A" | (crlf) g'' where "c = CHR 0x0D" "g' = CHR 0x0A # g''"
      | (cr) "c = CHR 0x0D" "g' = [] \<or> hd g' \<noteq> CHR 0x0A" | (other) "c \<noteq> CHR 0x22" "c \<noteq> CHR 0x0A" "c \<noteq> CHR 0x0D"
      by (cases g') auto
    then show ?thesis
    proof cases
      case q
      then show ?thesis using "1.prems" IH [of "r\<lparr>rd_field := CHR 0x22 # rd_field r, rd_st := InQuotedField\<rparr>" True] Cons lim
        by (simp add: pc_quoted)
    next
      case lf
      then show ?thesis using "1.prems" IH [of "r\<lparr>rd_field := c # rd_field r\<rparr>" False] Cons lim
        by (simp add: pc_quoted)
    next
      case crlf
      have IH2: "\<And>r b. rd_st r = InQuotedField \<Longrightarrow> length (rd_field r) + length g'' \<le> field_limit \<Longrightarrow>
         stream r b (csv_escape g'' @ CHR 0x22 # rest) =
         stream (r\<lparr>rd_st := QuoteInQuotedField, rd_field := rev g'' @ rd_field r\<rparr>) True rest"
        using "1.IH" Cons crlf by simp
      show ?thesis using "1.prems" IH2 [of "r\<lparr>rd_field := CHR 0x0A # c # rd_field r\<rparr>" False] Cons crlf lim
        by (simp add: pc_quoted)
    next
      case cr
      have "hd (csv_escape g' @ CHR 0x22 # rest) \<noteq> CHR 0x0A"
        using cr by (cases g') auto
      then show ?thesis using "1.prems" IH [of "r\<lparr>rd_field := c # rd_field r\<rparr>" False] Cons cr lim
        by (simp add: pc_quoted)
    next
      case other
      then show ?thesis using "1.prems" IH [of "r\<lparr>rd_field := c # rd_field r\<rparr>" True] Cons lim
        by (simp add: pc_quoted)
    qed
  qed
qed

lemma stream_field:
  assumes "at_field_start r" "length f \<le> field_limit"
  shows "\<exists>r'. stream r b (csv_field f @ rest) = stream r' (b \<or> csv_field f \<noteq> []) rest \<and>
           rd_field r' = rev f \<and> rd_fields r' = rd_fields r \<and>
           (csv_field f \<noteq> [] \<longrightarrow> rd_st r' \<in> {InField, QuoteInQuotedField}) \<and>
           (csv_field f = [] \<longrightarrow> r' = r)"
proof (cases "csv_quote_needed f")
  case True
  let ?r1 = "r\<lparr>rd_st := InQuotedField\<rparr>"
  have "stream r b (csv_field f @ rest) = stream ?r1 True (csv_escape f @ CHR 0x22 # rest)"
    using True assms by (simp add: csv_field_def pc_quoted)
  also have "\<dots> = stream (?r1\<lparr>rd_st := QuoteInQuotedField, rd_field := rev f @ rd_field ?r1\<rparr>) True rest"
    by (rule stream_quoted) (simp_all add: assms)
  finally show ?thesis using True assms by (auto simp: csv_field_def)
next
  case False
  show ?thesis
  proof (cases f)
    case Nil
    then show ?thesis using False assms by (auto simp: csv_field_def)
  next
    case (Cons c g)
    with False have nc: "\<not> csv_special c" and ng: "\<not> list_ex csv_special g"
      by (simp_all add: csv_quote_needed_def)
    have lim: "length (rd_field r) < field_limit" using assms Cons by (simp add: field_limit_def)
    let ?r1 = "r\<lparr>rd_field := c # rd_field r, rd_st := InField\<rparr>"
    have "stream r b (csv_field f @ rest) = stream ?r1 True (g @ rest)"
      using False Cons assms nc lim pc_plain(2) [of c r] not_special [of c] by (simp add: csv_field_def)
    also have "\<dots> = stream (?r1\<lparr>rd_field := rev g @ rd_field ?r1\<rparr>) True rest"
      using stream_plain [of ?r1 g True rest] ng assms Cons by simp
    finally show ?thesis using False Cons assms by (auto simp: csv_field_def)
  qed
qed

lemma stream_field_comma:
  assumes "at_field_start r" "length f \<le> field_limit"
  shows "stream r b (csv_field f @ CHR '','' # rest) =
           stream \<lparr>rd_st = StartField, rd_field = [], rd_fields = rd_fields r @ [f]\<rparr> True rest"
proof -
  obtain r' where e: "stream r b (csv_field f @ CHR '','' # rest) = stream r' (b \<or> csv_field f \<noteq> []) (CHR '','' # rest)"
    and r': "rd_field r' = rev f" "rd_fields r' = rd_fields r"
    and st: "csv_field f \<noteq> [] \<longrightarrow> rd_st r' \<in> {InField, QuoteInQuotedField}" and eq: "csv_field f = [] \<longrightarrow> r' = r"
    using stream_field [OF assms] by blast
  have "rd_st r' \<in> {StartRecord, StartField, InField, QuoteInQuotedField}"
    using st eq assms by auto
  then show ?thesis using r' unfolding e by (cases r') (simp add: pc_delim(1) save_field_def)
qed

lemma stream_field_crlf:
  assumes "at_field_start r" "length f \<le> field_limit" "rd_st r = StartField \<or> csv_field f \<noteq> []"
  shows "stream r b (csv_field f @ CHR 0x0D # CHR 0x0A # rest) =
           map_option (Cons (rd_fields r @ [f])) (stream reader_init False rest)"
proof -
  obtain r' where e: "stream r b (csv_field f @ CHR 0x0D # CHR 0x0A # rest) =
       stream r' (b \<or> csv_field f \<noteq> []) (CHR 0x0D # CHR 0x0A # rest)"
    and r': "rd_field r' = rev f" "rd_fields r' = rd_fields r"
    and st0: "csv_field f \<noteq> [] \<longrightarrow> rd_st r' \<in> {InField, QuoteInQuotedField}" and eq: "csv_field f = [] \<longrightarrow> r' = r"
    using stream_field [OF assms(1,2)] by blast
  have st: "rd_st r' \<in> {StartField, InField, QuoteInQuotedField}"
    using st0 assms(3) eq by auto
  show ?thesis using r' st unfolding e
    by (cases r') (simp add: pc_delim(2,4,5) save_field_def reader_init_def)
qed

lemma stream_join:
  "fs \<noteq> [] \<Longrightarrow> at_field_start r \<Longrightarrow> rd_st r = StartField \<or> csv_join fs \<noteq> [] \<Longrightarrow>
   list_all (\<lambda>f. length f \<le> field_limit) fs \<Longrightarrow>
   stream r b (csv_join fs @ CHR 0x0D # CHR 0x0A # rest) =
     map_option (Cons (rd_fields r @ fs)) (stream reader_init False rest)"
proof (induction fs arbitrary: r b rule: csv_join.induct)
  case 1
  then show ?case by simp
next
  case (2 f)
  then show ?case using stream_field_crlf [of r f b rest] by simp
next
  case (3 f g fs)
  let ?r = "\<lparr>rd_st = StartField, rd_field = [], rd_fields = rd_fields r @ [f]\<rparr>"
  have "stream r b (csv_join (f # g # fs) @ CHR 0x0D # CHR 0x0A # rest) =
        stream ?r True (csv_join (g # fs) @ CHR 0x0D # CHR 0x0A # rest)"
    using stream_field_comma [OF "3.prems"(2)] "3.prems"(4) by simp
  also have "\<dots> = map_option (Cons (rd_fields ?r @ g # fs)) (stream reader_init False rest)"
    by (rule "3.IH") (use "3.prems"(4) in simp_all)
  finally show ?case by simp
qed

lemma csv_join_empty: "csv_join fs = [] \<Longrightarrow> fs \<noteq> [] \<Longrightarrow> fs = [[]]"
  by (induction fs rule: csv_join.induct) (auto simp: csv_field_def split: if_splits)

lemma stream_line:
  assumes "list_all (\<lambda>f. length f \<le> field_limit) fs"
  shows "stream reader_init False (csv_line fs @ rest) = map_option (Cons fs) (stream reader_init False rest)"
proof (cases "fs = []")
  case True
  then show ?thesis by (simp add: csv_line_def reader_init_def pc_delim)
next
  case False
  show ?thesis
  proof (cases "csv_join fs = []")
    case True
    then have "fs = [[]]" using False by (rule csv_join_empty)
    then show ?thesis
      using True by (simp add: csv_line_def reader_init_def pc_delim pc_quoted save_field_def)
  next
    case f: False
    show ?thesis
      using stream_join [of fs reader_init False rest] False f assms by (simp add: csv_line_def reader_init_def)
  qed
qed

lemma stream_text:
  "list_all (list_all (\<lambda>f. length f \<le> field_limit)) rows \<Longrightarrow> stream reader_init False (csv_text rows) = Some rows"
proof (induction rows)
  case Nil
  then show ?case by (simp add: csv_text_def reader_init_def)
next
  case (Cons fs rows)
  then show ?case using stream_line [of fs "csv_text rows"] by (simp add: csv_text_def)
qed

lemma csv_read_stream_eq: "csv_read s = stream reader_init False s"
  unfolding csv_read_def split_lines_def using read_lines_stream [of reader_init "[]" reader_init s] by simp

subsection \<open>The program's records\<close>

lemma digit_not_special: "is_digit c \<Longrightarrow> \<not> csv_special c"
  by (auto simp: is_digit_def csv_special_def Let_def)

lemma digit_char_not_special: "d < 10 \<Longrightarrow> \<not> csv_special (digit_char d)"
  by (rule digit_not_special [OF is_digit_digit_char])

lemma punct_not_special [simp]:
  "\<not> csv_special CHR ''-''" "\<not> csv_special CHR ''.''" "\<not> csv_special CHR '' ''"
  "\<not> csv_special CHR ''M''" "\<not> csv_special CHR ''%''"
  by (simp_all add: csv_special_def)

lemma fmt2_no_special: "\<not> list_ex csv_special (fmt2 x)"
proof -
  define n where "n = nat (round_half_even (\<bar>x\<bar> * 100))"
  have q: "\<not> list_ex csv_special (nat_str (n div 100))"
    using nat_str_digits [of "n div 100"] digit_not_special by (auto simp: list_ex_iff)
  have d: "\<not> csv_special (digit_char (n mod 100 div 10))" "\<not> csv_special (digit_char (n mod 10))"
    by (simp_all add: digit_char_not_special)
  show ?thesis using q d by (simp add: fmt2_def n_def [symmetric] Let_def)
qed

lemma csv_field_plain: "\<not> csv_quote_needed f \<Longrightarrow> csv_field f = f"
  by (simp add: csv_field_def)

lemma report_fields_unquoted:
  "\<not> csv_quote_needed t \<Longrightarrow> \<not> csv_quote_needed l \<Longrightarrow> list_all (\<lambda>f. \<not> csv_quote_needed f) (report_fields p l t)"
  by (simp add: report_fields_def format_trade_value_def fmt2_no_special csv_quote_needed_def)

section \<open>Properties\<close>

text \<open>
  Round trip. Whatever records are written one \<open>writerow\<close> after the
  other, commas, quote characters and line breaks inside fields included,
  \<open>csv.reader\<close> on the file reads exactly these records back, provided no
  field exceeds the reader's field size limit.
\<close>

theorem csv_roundtrip:
  "list_all (list_all (\<lambda>f. length f \<le> field_limit)) rows \<Longrightarrow> csv_read (csv_text rows) = Some rows"
  by (simp add: csv_read_stream_eq stream_text)

theorem csv_roundtrip_witness:
  "list_all (list_all (\<lambda>f. length f \<le> field_limit))
     [[''a,b'', ''say '' @ [CHR 0x22, CHR ''h'', CHR ''i'', CHR 0x22]], [''two'' @ [CHR 0x0A] @ ''lines''], [[]], []] \<and>
   csv_read (csv_text [[''a,b'', ''say '' @ [CHR 0x22, CHR ''h'', CHR ''i'', CHR 0x22]], [''two'' @ [CHR 0x0A] @ ''lines''], [[]], []]) =
     Some [[''a,b'', ''say '' @ [CHR 0x22, CHR ''h'', CHR ''i'', CHR 0x22]], [''two'' @ [CHR 0x0A] @ ''lines''], [[]], []]"
  using csv_roundtrip [of "[[''a,b'', ''say '' @ [CHR 0x22, CHR ''h'', CHR ''i'', CHR 0x22]], [''two'' @ [CHR 0x0A] @ ''lines''], [[]], []]"]
  by (simp add: field_limit_def)

text \<open>
  Equivalence. The reader as CPython runs it, feeding the file line by
  line (lines split after \<open>\n\<close>, \<open>\r\n\<close> or a lone \<open>\r\<close>) with an end-of-line
  mark after each, gives the same result, error included, as the reader run
  over the file's characters with the mark inserted after each line terminator.
\<close>

theorem csv_reader_streaming: "csv_read s = stream reader_init False s"
  by (rule csv_read_stream_eq)

text \<open>
  The records of \<open>calculate_and_display\<close> need no quoting: when the
  timestamp and the label contain no comma, quote or line break, the line
  appended to the log is the six fields joined by commas and ended by \<open>\r\n\<close>.
\<close>

theorem report_line:
  assumes "\<not> csv_quote_needed t" "\<not> csv_quote_needed l"
  shows "csv_line (report_fields p l t) =
     t @ CHR '','' # l @ CHR '','' # format_trade_value (total_big_trades p) @ CHR '','' #
     format_trade_value (total_small_trades p) @ CHR '','' # fmt2 (average_price p) @ CHR '','' #
     fmt2 (percentage p) @ ''%'' @ [CHR 0x0D, CHR 0x0A]"
  using report_fields_unquoted [OF assms, of p]
  by (simp add: csv_line_def report_fields_def csv_field_plain)

theorem report_line_witness:
  "\<not> csv_quote_needed ''11-09-2026 01:57:20'' \<and> \<not> csv_quote_needed ''15 m'' \<and>
   csv_line (report_fields scenario_processor ''15 m'' ''11-09-2026 01:57:20'') =
     ''11-09-2026 01:57:20,15 m,0.00,855.00,107.50,2.33%'' @ [CHR 0x0D, CHR 0x0A]"
proof -
  have h: "\<not> csv_quote_needed ''11-09-2026 01:57:20''" "\<not> csv_quote_needed ''15 m''"
    by (simp_all add: csv_quote_needed_def csv_special_def)
  have v: "format_trade_value (total_big_trades scenario_processor) = ''0.00''"
    "format_trade_value (total_small_trades scenario_processor) = ''855.00''"
    "fmt2 (average_price scenario_processor) = ''107.50''"
    "fmt2 (percentage scenario_processor) = ''2.33''"
    by (simp_all add: scenario_processor_def init_processor_def total_big_trades_def total_small_trades_def
        average_price_def percentage_def current_price_def format_trade_value_def fmt2_eval)
  show ?thesis using h report_line [OF h, of scenario_processor] unfolding v by simp
qed

end
