(* ===== verification/Json.thy ===== *)
theory Json
  imports Message
begin

text \<open>
  \<open>json.loads\<close>, which \<open>on_message\<close> applies to the text of each frame
  (\<open>src/main.py\<close> line 102), and \<open>json.dumps\<close>, which \<open>on_open\<close> applies to
  the subscription request (line 134). Both are modelled from CPython's
  \<open>json\<close> package with its C accelerator \<open>_json.c\<close> (\<open>scanstring_unicode\<close>,
  \<open>scan_once_unicode\<close>, \<open>_parse_object_unicode\<close>, \<open>_parse_array_unicode\<close>,
  \<open>_match_number_unicode\<close>, \<open>encode_basestring_ascii\<close>) and the default
  options: \<open>strict=True\<close>, numbers by \<open>int\<close> and \<open>float\<close>, \<open>NaN\<close> and
  \<open>Infinity\<close> accepted, \<open>ensure_ascii=True\<close>, separators \<open>", "\<close> and
  \<open>": "\<close>. A scanner result is an error (a message and the length of the
  input left at the error, turned into Python's position at the end) or a
  value and the rest of the input. The recursion over nested values carries
  fuel; the theory proves that the fuel \<open>json_loads\<close> gives is always enough,
  that \<open>json_loads\<close> reads back what \<open>json_dumps\<close> writes, and the text of the
  subscription request.
\<close>

section \<open>Scanner results\<close>

text \<open>
  \<open>JErr msg rem\<close>: \<open>JSONDecodeError\<close> with \<open>rem\<close> characters left at its
  position; \<open>JNonFin\<close>: a constant Python reads as \<open>nan\<close> or \<open>inf\<close>;
  \<open>JValue\<close>: the \<open>ValueError\<close> of \<open>int\<close> on more than 4300 digits;
  \<open>JLimit\<close>: a character beyond 8 bits; \<open>JFuel\<close>: the fuel ran out.
\<close>

datatype jerr = JErr string nat | JValue string | JNonFin string | JLimit string | JFuel

type_synonym 'a jscan = "jerr + ('a \<times> string)"

section \<open>Whitespace, escapes, numbers\<close>

definition is_json_ws :: "char \<Rightarrow> bool" where
  "is_json_ws c \<longleftrightarrow> c = CHR '' '' \<or> c = CHR 0x09 \<or> c = CHR 0x0A \<or> c = CHR 0x0D"

definition json_ws :: "string \<Rightarrow> string" where
  "json_ws s = dropWhile is_json_ws s"

definition hex_val :: "char \<Rightarrow> nat option" where
  "hex_val c =
     (let n = (of_char c :: nat) in
      if 48 \<le> n \<and> n \<le> 57 then Some (n - 48)
      else if 97 \<le> n \<and> n \<le> 102 then Some (n - 87)
      else if 65 \<le> n \<and> n \<le> 70 then Some (n - 55)
      else None)"

definition hex4 :: "string \<Rightarrow> nat option" where
  "hex4 s =
     (case s of
        a # b # c # d # _ \<Rightarrow>
          (case (hex_val a, hex_val b, hex_val c, hex_val d) of
             (Some x, Some y, Some z, Some w) \<Rightarrow> Some (((x * 16 + y) * 16 + z) * 16 + w)
           | _ \<Rightarrow> None)
      | _ \<Rightarrow> None)"

text \<open>The one-character escapes of \<open>scanstring_unicode\<close>.\<close>

definition json_esc :: "char \<Rightarrow> char option" where
  "json_esc e =
     (if e = CHR 0x22 \<or> e = CHR 0x5C \<or> e = CHR ''/'' then Some e
      else if e = CHR ''b'' then Some (CHR 0x08)
      else if e = CHR ''f'' then Some (CHR 0x0C)
      else if e = CHR ''n'' then Some (CHR 0x0A)
      else if e = CHR ''r'' then Some (CHR 0x0D)
      else if e = CHR ''t'' then Some (CHR 0x09)
      else None)"

text \<open>
  A string after its opening quote; \<open>b\<close> is the input left at the opening quote,
  where an unterminated string is reported.
\<close>

function scan_str :: "nat \<Rightarrow> string \<Rightarrow> string \<Rightarrow> string jscan" where
  "scan_str b acc [] = Inl (JErr ''Unterminated string starting at'' b)"
| "scan_str b acc (c # s) =
     (if c = CHR 0x22 then Inr (rev acc, s)
      else if c = CHR 0x5C then
        (case s of
           [] \<Rightarrow> Inl (JErr ''Unterminated string starting at'' b)
         | e # s' \<Rightarrow>
             if e = CHR ''u'' then
               (if length s' \<le> 4 then Inl (JErr (''Invalid '' @ CHR 0x5C # ''uXXXX escape'') (Suc (length s')))
                else (case hex4 s' of
                        None \<Rightarrow> Inl (JErr (''Invalid '' @ CHR 0x5C # ''uXXXX escape'') (Suc (length s')))
                      | Some u \<Rightarrow> if u < 256 then scan_str b (char_of u # acc) (drop 4 s')
                                  else Inl (JLimit (CHR 0x5C # ''u''))))
             else (case json_esc e of
                     None \<Rightarrow> Inl (JErr (''Invalid '' @ CHR 0x5C # ''escape'') (Suc (length s)))
                   | Some ch \<Rightarrow> scan_str b (ch # acc) s'))
      else if (of_char c :: nat) < 32 then Inl (JErr ''Invalid control character at'' (Suc (length s)))
      else scan_str b (c # acc) s)"
  by pat_completeness auto
termination
  by (relation "measure (\<lambda>(b, acc, s). length s)") auto

text \<open>
  \<open>_match_number_unicode\<close>: \<open>-?(0|[1-9][0-9]*)\<close>, then a fraction only if a
  digit follows the point, then an exponent only if a digit follows \<open>e\<close> and
  its sign. The result is the text of the number and the rest.
\<close>

definition match_int :: "string \<Rightarrow> (string \<times> string) option" where
  "match_int s =
     (let (sg, r) = (case s of c # r' \<Rightarrow> if c = CHR ''-'' then (''-'', r') else ([], s) | [] \<Rightarrow> ([], [])) in
      case r of
        [] \<Rightarrow> None
      | d # r' \<Rightarrow>
          if d = CHR ''0'' then Some (sg @ [d], r')
          else if is_digit d then Some (sg @ d # takeWhile is_digit r', dropWhile is_digit r')
          else None)"

definition match_frac :: "string \<Rightarrow> string \<times> string" where
  "match_frac r =
     (case r of
        c # d # _ \<Rightarrow> if c = CHR ''.'' \<and> is_digit d then (c # takeWhile is_digit (tl r), dropWhile is_digit (tl r)) else ([], r)
      | _ \<Rightarrow> ([], r))"

definition match_exp :: "string \<Rightarrow> string \<times> string" where
  "match_exp r =
     (case r of
        e # r' \<Rightarrow>
          if e = CHR ''e'' \<or> e = CHR ''E'' then
            (let (sg, r'') = (case r' of c # x \<Rightarrow> if c = CHR ''+'' \<or> c = CHR ''-'' then ([c], x) else ([], r') | [] \<Rightarrow> ([], [])) in
             case r'' of
               d # _ \<Rightarrow> if is_digit d then (e # sg @ takeWhile is_digit r'', dropWhile is_digit r'') else ([], r)
             | [] \<Rightarrow> ([], r))
          else ([], r)
      | [] \<Rightarrow> ([], r))"

text \<open>What may follow a value inside a document \<open>json.dumps\<close> wrote: nothing, or a separator.\<close>

definition json_stop :: "string \<Rightarrow> bool" where
  "json_stop r \<longleftrightarrow> r = [] \<or> hd r = CHR '','' \<or> hd r = CHR '']'' \<or> hd r = CHR ''}''"

text \<open>\<open>sys.get_int_max_str_digits()\<close> by default.\<close>

definition int_max_str_digits :: nat where
  "int_max_str_digits = 4300"

text \<open>\<open>int(text)\<close> for an integer, \<open>float(text)\<close> otherwise.\<close>

definition json_number :: "string \<Rightarrow> string \<Rightarrow> string \<Rightarrow> jvalue + jerr" where
  "json_number i fr ex =
     (if fr = [] \<and> ex = [] then
        (let ds = (if hd i = CHR ''-'' then tl i else i) in
         if length ds > int_max_str_digits then
           Inr (JValue (''Exceeds the limit (4300 digits) for integer string conversion: value has '' @
                        nat_str (length ds) @ '' digits; use sys.set_int_max_str_digits() to increase the limit''))
         else Inl (JInt ((if hd i = CHR ''-'' then -1 else 1) * int (digits_value 0 ds))))
      else (case parse_float (i @ fr @ ex) of
              Finite r \<Rightarrow> Inl (JNum r)
            | _ \<Rightarrow> Inr (JNonFin (i @ fr @ ex))))"

section \<open>The scanner\<close>

text \<open>
  A value that is not a string, object or array: the named constants, then a
  number, else \<open>"Expecting value"\<close> (the \<open>StopIteration\<close> of \<open>scan_once\<close>).
\<close>

definition scan_scalar :: "string \<Rightarrow> jvalue jscan" where
  "scan_scalar s =
     (if take 4 s = ''null'' then Inr (JNull, drop 4 s)
      else if take 4 s = ''true'' then Inr (JBool True, drop 4 s)
      else if take 5 s = ''false'' then Inr (JBool False, drop 5 s)
      else if take 3 s = ''NaN'' then Inl (JNonFin ''NaN'')
      else if take 8 s = ''Infinity'' then Inl (JNonFin ''Infinity'')
      else if take 9 s = ''-Infinity'' then Inl (JNonFin ''-Infinity'')
      else (case match_int s of
              None \<Rightarrow> Inl (JErr ''Expecting value'' (length s))
            | Some (i, r1) \<Rightarrow>
                (case match_frac r1 of (fr, r2) \<Rightarrow>
                 case match_exp r2 of (ex, r3) \<Rightarrow>
                 case json_number i fr ex of Inl v \<Rightarrow> Inr (v, r3) | Inr e \<Rightarrow> Inl e)))"

text \<open>A member's key and the colon after it, whitespace around both.\<close>

definition scan_key :: "string \<Rightarrow> string jscan" where
  "scan_key s =
     (if s \<noteq> [] \<and> hd s = CHR 0x22 then
        (case scan_str (length s) [] (tl s) of
           Inl e \<Rightarrow> Inl e
         | Inr (k, r1) \<Rightarrow>
             if json_ws r1 \<noteq> [] \<and> hd (json_ws r1) = CHR '':'' then Inr (k, json_ws (tl (json_ws r1)))
             else Inl (JErr ''Expecting ':' delimiter'' (length (json_ws r1))))
      else Inl (JErr ''Expecting property name enclosed in double quotes'' (length s)))"

text \<open>After a member or an element: the closing bracket, or a comma and the next one.\<close>

datatype jsep = SepEnd string | SepNext string | SepErr jerr

definition scan_sep :: "char \<Rightarrow> string \<Rightarrow> string \<Rightarrow> jsep" where
  "scan_sep close what r =
     (let r1 = json_ws r in
      if r1 \<noteq> [] \<and> hd r1 = close then SepEnd (tl r1)
      else if r1 \<noteq> [] \<and> hd r1 = CHR '','' then
        (let r2 = json_ws (tl r1) in
         if r2 \<noteq> [] \<and> hd r2 = close then SepErr (JErr (''Illegal trailing comma before end of '' @ what) (length r1))
         else SepNext r2)
      else SepErr (JErr ''Expecting ',' delimiter'' (length r1)))"

text \<open>
  \<open>scan_once_unicode\<close> at a value, \<open>_parse_object_unicode\<close> after \<open>{\<close> and
  its members, \<open>_parse_array_unicode\<close> after \<open>[\<close> and its elements: one
  function of the fuel and of what is being scanned. The accumulators hold the
  members or elements read so far, in reverse.
\<close>

datatype jmode = MValue | MObject | MMembers "(string \<times> jvalue) list" | MArray | MElems "jvalue list"

primrec scan :: "nat \<Rightarrow> jmode \<Rightarrow> string \<Rightarrow> jvalue jscan" where
  "scan 0 m s = Inl JFuel"
| "scan (Suc n) m s =
     (case m of
        MValue \<Rightarrow>
          if s \<noteq> [] \<and> hd s = CHR 0x22 then
            (case scan_str (length s) [] (tl s) of Inl e \<Rightarrow> Inl e | Inr (t, r) \<Rightarrow> Inr (JStr t, r))
          else if s \<noteq> [] \<and> hd s = CHR ''{'' then scan n MObject (tl s)
          else if s \<noteq> [] \<and> hd s = CHR ''['' then scan n MArray (tl s)
          else scan_scalar s
      | MObject \<Rightarrow>
          if json_ws s \<noteq> [] \<and> hd (json_ws s) = CHR ''}'' then Inr (JObj [], tl (json_ws s))
          else scan n (MMembers []) (json_ws s)
      | MMembers acc \<Rightarrow>
          (case scan_key s of
             Inl e \<Rightarrow> Inl e
           | Inr (k, r) \<Rightarrow>
               (case scan n MValue r of
                  Inl e \<Rightarrow> Inl e
                | Inr (v, r') \<Rightarrow>
                    (case scan_sep (CHR ''}'') ''object'' r' of
                       SepEnd r'' \<Rightarrow> Inr (JObj (rev ((k, v) # acc)), r'')
                     | SepNext r'' \<Rightarrow> scan n (MMembers ((k, v) # acc)) r''
                     | SepErr e \<Rightarrow> Inl e)))
      | MArray \<Rightarrow>
          if json_ws s \<noteq> [] \<and> hd (json_ws s) = CHR '']'' then Inr (JArr [], tl (json_ws s))
          else scan n (MElems []) (json_ws s)
      | MElems acc \<Rightarrow>
          (case scan n MValue s of
             Inl e \<Rightarrow> Inl e
           | Inr (v, r) \<Rightarrow>
               (case scan_sep (CHR '']'') ''array'' r of
                  SepEnd r' \<Rightarrow> Inr (JArr (rev (v # acc)), r')
                | SepNext r' \<Rightarrow> scan n (MElems (v # acc)) r'
                | SepErr e \<Rightarrow> Inl e)))"

text \<open>
  \<open>json.loads(s)\<close>: leading whitespace, one value, trailing whitespace, and
  nothing else (\<open>"Extra data"\<close>). The fuel, three steps per character, is
  enough (\<open>scan_fuel\<close>).
\<close>

text \<open>The fuel a scan needs: three steps per character, and one or two for the mode.\<close>

definition fuel_need :: "jmode \<Rightarrow> string \<Rightarrow> nat" where
  "fuel_need m s = 3 * length s + (case m of MValue \<Rightarrow> 0 | MObject \<Rightarrow> 2 | MArray \<Rightarrow> 2 | MMembers _ \<Rightarrow> 1 | MElems _ \<Rightarrow> 1)"

definition json_fuel :: "string \<Rightarrow> nat" where
  "json_fuel s = 3 * length s + 3"

definition json_loads :: "string \<Rightarrow> py_error + jvalue" where
  "json_loads s =
     (case scan (json_fuel s) MValue (json_ws s) of
        Inl (JErr msg rem) \<Rightarrow> Inl (JSONDecodeError msg s (length s - rem))
      | Inl (JValue msg) \<Rightarrow> Inl (ValueError msg)
      | Inl (JNonFin t) \<Rightarrow> Inl (NonFiniteValue t)
      | Inl (JLimit t) \<Rightarrow> Inl (Unrepresentable t)
      | Inl JFuel \<Rightarrow> Inl (Unrepresentable ''nesting'')
      | Inr (v, r) \<Rightarrow> if json_ws r = [] then Inr v else Inl (JSONDecodeError ''Extra data'' s (length s - length (json_ws r))))"

section \<open>The encoder\<close>

text \<open>\<open>encode_basestring_ascii\<close>: quote, backslash and the control characters
  with a short form are escaped by it; every other character outside
  \<open>" "\<close>..\<open>"~"\<close> as \<open>\u\<close> and four lower-case hex digits.\<close>

definition hex_digit :: "nat \<Rightarrow> char" where
  "hex_digit d = (if d < 10 then char_of (48 + d) else char_of (87 + d))"

definition json_hex4 :: "nat \<Rightarrow> string" where
  "json_hex4 n = [hex_digit (n div 4096 mod 16), hex_digit (n div 256 mod 16), hex_digit (n div 16 mod 16), hex_digit (n mod 16)]"

definition json_esc_out :: "char \<Rightarrow> string" where
  "json_esc_out c =
     (if c = CHR 0x22 \<or> c = CHR 0x5C then [CHR 0x5C, c]
      else if c = CHR 0x0A then [CHR 0x5C, CHR ''n'']
      else if c = CHR 0x0D then [CHR 0x5C, CHR ''r'']
      else if c = CHR 0x09 then [CHR 0x5C, CHR ''t'']
      else if c = CHR 0x08 then [CHR 0x5C, CHR ''b'']
      else if c = CHR 0x0C then [CHR 0x5C, CHR ''f'']
      else if (of_char c :: nat) < 32 \<or> 126 < (of_char c :: nat) then CHR 0x5C # CHR ''u'' # json_hex4 (of_char c)
      else [c])"

definition json_str_out :: "string \<Rightarrow> string" where
  "json_str_out s = CHR 0x22 # concat (map json_esc_out s) @ [CHR 0x22]"

text \<open>\<open>int.__repr__\<close>, with its limit on the number of digits.\<close>

definition int_str :: "int \<Rightarrow> py_error + string" where
  "int_str i =
     (if length (nat_str (nat \<bar>i\<bar>)) > int_max_str_digits then
        Inl (ValueError ''Exceeds the limit (4300 digits) for integer string conversion; use sys.set_int_max_str_digits() to increase the limit'')
      else Inr ((if i < 0 then ''-'' else []) @ nat_str (nat \<bar>i\<bar>)))"

fun sep_join :: "string list \<Rightarrow> string" where
  "sep_join [] = []"
| "sep_join [t] = t"
| "sep_join (t # ts) = t @ '', '' @ sep_join ts"

text \<open>
  \<open>json.dumps\<close> with the default separators. A float would be written by
  \<open>float.__repr__\<close>, the shortest text that reads back as the same binary
  float; the model's exact reals have no such text, so the model stops there.
\<close>

fun json_dumps :: "jvalue \<Rightarrow> py_error + string"
and dumps_elems :: "jvalue list \<Rightarrow> py_error + string list"
and dumps_members :: "(string \<times> jvalue) list \<Rightarrow> py_error + string list" where
  "json_dumps JNull = Inr ''null''"
| "json_dumps (JBool b) = Inr (if b then ''true'' else ''false'')"
| "json_dumps (JInt i) = int_str i"
| "json_dumps (JNum r) = Inl (Unrepresentable ''float.__repr__'')"
| "json_dumps (JStr t) = Inr (json_str_out t)"
| "json_dumps (JArr vs) = (case dumps_elems vs of Inl e \<Rightarrow> Inl e | Inr ts \<Rightarrow> Inr (''['' @ sep_join ts @ '']''))"
| "json_dumps (JObj kvs) = (case dumps_members kvs of Inl e \<Rightarrow> Inl e | Inr ts \<Rightarrow> Inr (''{'' @ sep_join ts @ ''}''))"
| "dumps_elems [] = Inr []"
| "dumps_elems (v # vs) =
     (case json_dumps v of
        Inl e \<Rightarrow> Inl e
      | Inr t \<Rightarrow> (case dumps_elems vs of Inl e \<Rightarrow> Inl e | Inr ts \<Rightarrow> Inr (t # ts)))"
| "dumps_members [] = Inr []"
| "dumps_members ((k, v) # kvs) =
     (case json_dumps v of
        Inl e \<Rightarrow> Inl e
      | Inr t \<Rightarrow> (case dumps_members kvs of Inl e \<Rightarrow> Inl e | Inr ts \<Rightarrow> Inr ((json_str_out k @ '': '' @ t) # ts)))"

section \<open>Fuel: progress of the scanner and enough fuel\<close>

lemma scan_mono: "scan n m s \<noteq> Inl JFuel \<Longrightarrow> n \<le> k \<Longrightarrow> scan k m s = scan n m s"
proof (induction n arbitrary: k m s)
  case 0
  then show ?case by simp
next
  case (Suc n)
  obtain k' where k: "k = Suc k'" "n \<le> k'" using Suc.prems(2) by (cases k) auto
  have IH: "\<And>m s. scan n m s \<noteq> Inl JFuel \<Longrightarrow> scan k' m s = scan n m s"
    using Suc.IH k(2) by blast
  show ?case
  proof (cases m)
    case MValue
    then show ?thesis using Suc.prems(1) IH unfolding k by (auto split: sum.split)
  next
    case MObject
    then show ?thesis using Suc.prems(1) IH unfolding k by auto
  next
    case (MMembers acc)
    then show ?thesis using Suc.prems(1) IH unfolding k by (auto split: sum.split prod.split jsep.split)
  next
    case MArray
    then show ?thesis using Suc.prems(1) IH unfolding k by auto
  next
    case (MElems acc)
    then show ?thesis using Suc.prems(1) IH unfolding k by (auto split: sum.split prod.split jsep.split)
  qed
qed

lemma json_ws_length: "length (json_ws s) \<le> length s"
  by (simp add: json_ws_def length_dropWhile_le)

lemma scan_str_progress: "scan_str b acc s = Inr (t, r) \<Longrightarrow> length r < length s"
proof (induction s arbitrary: acc rule: length_induct)
  case (1 s)
  note IH = "1.IH" and a = "1.prems"
  show ?case
  proof (cases s)
    case Nil
    then show ?thesis using a by simp
  next
    case (Cons c s1)
    consider (q) "c = CHR 0x22" | (bs) "c = CHR 0x5C" | (other) "c \<noteq> CHR 0x22" "c \<noteq> CHR 0x5C" by blast
    then show ?thesis
    proof cases
      case q
      then show ?thesis using a Cons by simp
    next
      case bs
      then obtain e s' where s1: "s1 = e # s'" using a Cons by (cases s1) auto
      show ?thesis
      proof (cases "e = CHR ''u''")
        case True
        then obtain u :: nat where u: "scan_str b (char_of u # acc) (drop 4 s') = Inr (t, r)"
          using a Cons bs s1 by (auto split: if_splits option.splits)
        have "length (drop 4 s') < length s" using Cons s1 by simp
        then have "length r < length (drop 4 s')" using IH u by blast
        then show ?thesis using Cons s1 by simp
      next
        case False
        then obtain ch where ch: "scan_str b (ch # acc) s' = Inr (t, r)"
          using a Cons bs s1 by (auto split: option.splits)
        have "length s' < length s" using Cons s1 by simp
        then have "length r < length s'" using IH ch by blast
        then show ?thesis using Cons s1 by simp
      qed
    next
      case other
      then have o: "scan_str b (c # acc) s1 = Inr (t, r)" using a Cons by (auto split: if_splits)
      have "length s1 < length s" using Cons by simp
      then have "length r < length s1" using IH o by blast
      then show ?thesis using Cons by simp
    qed
  qed
qed

lemma ws_tl_less:
  "json_ws r \<noteq> [] \<Longrightarrow> length (tl (json_ws r)) < length r"
  "json_ws r \<noteq> [] \<Longrightarrow> length (json_ws (tl (json_ws r))) < length r"
proof -
  assume ne: "json_ws r \<noteq> []"
  then have "length (tl (json_ws r)) < length (json_ws r)" by (cases "json_ws r") auto
  then show t: "length (tl (json_ws r)) < length r" using json_ws_length [of r] by simp
  show "length (json_ws (tl (json_ws r))) < length r"
    using t json_ws_length [of "tl (json_ws r)"] by simp
qed

lemma match_int_progress: "match_int s = Some (i, r) \<Longrightarrow> length r < length s"
  by (auto simp: match_int_def length_dropWhile_le le_SucI [OF length_dropWhile_le] less_Suc_eq_le split: list.splits if_splits)

lemma match_frac_progress: "match_frac r = (fr, r2) \<Longrightarrow> length r2 \<le> length r"
  by (auto simp: match_frac_def length_dropWhile_le le_SucI split: list.splits if_splits)

lemma match_exp_progress: "match_exp r = (ex, r2) \<Longrightarrow> length r2 \<le> length r"
  by (auto simp: match_exp_def Let_def length_dropWhile_le le_SucI split: list.splits if_splits)

lemma scan_scalar_progress: "scan_scalar s = Inr (v, r) \<Longrightarrow> length r < length s"
proof -
  assume a: "scan_scalar s = Inr (v, r)"
  show ?thesis
  proof (cases "take 4 s = ''null'' \<or> take 4 s = ''true'' \<or> take 5 s = ''false''")
    case True
    then have "s \<noteq> []" by auto
    with True a show ?thesis by (auto simp: scan_scalar_def split: if_splits)
  next
    case False
    with a obtain i r1 fr r2 ex where m: "match_int s = Some (i, r1)" "match_frac r1 = (fr, r2)"
      "match_exp r2 = (ex, r)"
      by (auto simp: scan_scalar_def split: if_splits option.splits prod.splits sum.splits)
    show ?thesis using match_int_progress [OF m(1)] match_frac_progress [OF m(2)] match_exp_progress [OF m(3)]
      by simp
  qed
qed

lemma scan_key_progress: "scan_key s = Inr (k, r) \<Longrightarrow> length r < length s"
proof -
  assume a: "scan_key s = Inr (k, r)"
  then obtain r1 where s: "s \<noteq> []" "scan_str (length s) [] (tl s) = Inr (k, r1)"
    and r: "r = json_ws (tl (json_ws r1))" "json_ws r1 \<noteq> []"
    by (auto simp: scan_key_def split: if_splits sum.splits prod.splits)
  have "length r1 < length (tl s)" using scan_str_progress [OF s(2)] .
  then show ?thesis using ws_tl_less(2) [OF r(2)] r(1) s(1) by simp
qed

lemma scan_sep_progress:
  "scan_sep c w r = SepEnd r' \<Longrightarrow> length r' < length r"
  "scan_sep c w r = SepNext r' \<Longrightarrow> length r' < length r"
  using ws_tl_less [of r] by (auto simp: scan_sep_def Let_def split: if_splits)

lemma scan_str_no_fuel: "scan_str b acc s \<noteq> Inl JFuel"
  by (induction b acc s rule: scan_str.induct) (auto split: list.splits option.splits)

lemma json_number_no_fuel: "json_number i fr ex \<noteq> Inr JFuel"
  by (simp add: json_number_def Let_def split: float_lit.split)

lemma scan_scalar_no_fuel: "scan_scalar s \<noteq> Inl JFuel"
  using json_number_no_fuel by (auto simp: scan_scalar_def split: option.splits prod.splits sum.splits)

lemma scan_key_no_fuel: "scan_key s \<noteq> Inl JFuel"
  using scan_str_no_fuel by (auto simp: scan_key_def split: sum.splits prod.splits)

lemma scan_sep_no_fuel: "scan_sep c w r \<noteq> SepErr JFuel"
  by (simp add: scan_sep_def Let_def)

lemma scan_fuel:
  "fuel_need m s < n \<Longrightarrow> scan n m s \<noteq> Inl JFuel \<and> (\<forall>v r. scan n m s = Inr (v, r) \<longrightarrow> length r < length s)"
proof (induction n arbitrary: m s)
  case 0
  then show ?case by simp
next
  case (Suc n)
  note IH = Suc.IH
  show ?case
  proof (cases m)
    case MValue
    have f: "3 * length s < Suc n" using Suc.prems MValue by (simp add: fuel_need_def)
    consider (str) "s \<noteq> []" "hd s = CHR 0x22" | (obj) "s \<noteq> []" "hd s = CHR ''{''"
      | (arr) "s \<noteq> []" "hd s = CHR ''[''"
      | (sc) "\<not> (s \<noteq> [] \<and> hd s = CHR 0x22)" "\<not> (s \<noteq> [] \<and> hd s = CHR ''{'')" "\<not> (s \<noteq> [] \<and> hd s = CHR ''['')"
      by blast
    then show ?thesis
    proof cases
      case str
      have "length (tl s) < length s" using str by simp
      then show ?thesis using str MValue scan_str_no_fuel [of "length s" "[]" "tl s"]
          scan_str_progress [of "length s" "[]" "tl s"]
        by (fastforce split: sum.splits)
    next
      case obj
      have "fuel_need MObject (tl s) < n" using f obj by (cases s) (simp_all add: fuel_need_def)
      moreover have "length (tl s) < length s" using obj by simp
      ultimately show ?thesis using obj MValue IH [of MObject "tl s"] by fastforce
    next
      case arr
      have "fuel_need MArray (tl s) < n" using f arr by (cases s) (simp_all add: fuel_need_def)
      moreover have "length (tl s) < length s" using arr by simp
      ultimately show ?thesis using arr MValue IH [of MArray "tl s"] by fastforce
    next
      case sc
      then show ?thesis using MValue scan_scalar_no_fuel [of s] scan_scalar_progress [of s] by auto
    qed
  next
    case MObject
    have f: "3 * length s + 2 < Suc n" using Suc.prems MObject by (simp add: fuel_need_def)
    show ?thesis
    proof (cases "json_ws s \<noteq> [] \<and> hd (json_ws s) = CHR ''}''")
      case True
      then show ?thesis using MObject ws_tl_less(1) [of s] by auto
    next
      case False
      have "fuel_need (MMembers []) (json_ws s) < n" using f json_ws_length [of s] by (simp add: fuel_need_def)
      then show ?thesis using False MObject IH [of "MMembers []" "json_ws s"] json_ws_length [of s] by fastforce
    qed
  next
    case (MMembers acc)
    have f: "3 * length s + 1 < Suc n" using Suc.prems MMembers by (simp add: fuel_need_def)
    show ?thesis
    proof (cases "scan_key s")
      case (Inl e)
      then show ?thesis using MMembers scan_key_no_fuel [of s] by auto
    next
      case (Inr kr)
      then obtain k r where kr: "scan_key s = Inr (k, r)" by (cases kr) auto
      have lr: "length r < length s" by (rule scan_key_progress [OF kr])
      have "fuel_need MValue r < n" using f lr by (simp add: fuel_need_def)
      note v = IH [OF this]
      show ?thesis
      proof (cases "scan n MValue r")
        case (Inl e)
        then show ?thesis using MMembers kr v by auto
      next
        case (Inr vr)
        then obtain v' r' where vr: "scan n MValue r = Inr (v', r')" by (cases vr) auto
        have lr': "length r' < length r" using v vr by blast
        show ?thesis
        proof (cases "scan_sep (CHR ''}'') ''object'' r'")
          case (SepEnd r'')
          then show ?thesis using MMembers kr vr scan_sep_progress(1) [OF SepEnd] lr lr' by auto
        next
          case (SepNext r'')
          have l'': "length r'' < length r'" by (rule scan_sep_progress(2) [OF SepNext])
          have "fuel_need (MMembers ((k, v') # acc)) r'' < n" using f lr lr' l'' by (simp add: fuel_need_def)
          then show ?thesis using MMembers kr vr SepNext IH [of "MMembers ((k, v') # acc)" r''] lr lr' l'' by fastforce
        next
          case (SepErr e)
          then show ?thesis using MMembers kr vr scan_sep_no_fuel [of "CHR ''}''" "''object''" r'] by auto
        qed
      qed
    qed
  next
    case MArray
    have f: "3 * length s + 2 < Suc n" using Suc.prems MArray by (simp add: fuel_need_def)
    show ?thesis
    proof (cases "json_ws s \<noteq> [] \<and> hd (json_ws s) = CHR '']''")
      case True
      then show ?thesis using MArray ws_tl_less(1) [of s] by auto
    next
      case False
      have "fuel_need (MElems []) (json_ws s) < n" using f json_ws_length [of s] by (simp add: fuel_need_def)
      then show ?thesis using False MArray IH [of "MElems []" "json_ws s"] json_ws_length [of s] by fastforce
    qed
  next
    case (MElems acc)
    have f: "3 * length s + 1 < Suc n" using Suc.prems MElems by (simp add: fuel_need_def)
    have "fuel_need MValue s < n" using f by (simp add: fuel_need_def)
    note v = IH [OF this]
    show ?thesis
    proof (cases "scan n MValue s")
      case (Inl e)
      then show ?thesis using MElems v by auto
    next
      case (Inr vr)
      then obtain v' r where vr: "scan n MValue s = Inr (v', r)" by (cases vr) auto
      have lr: "length r < length s" using v vr by blast
      show ?thesis
      proof (cases "scan_sep (CHR '']'') ''array'' r")
        case (SepEnd r')
        then show ?thesis using MElems vr scan_sep_progress(1) [OF SepEnd] lr by auto
      next
        case (SepNext r')
        have l': "length r' < length r" by (rule scan_sep_progress(2) [OF SepNext])
        have "fuel_need (MElems (v' # acc)) r' < n" using f lr l' by (simp add: fuel_need_def)
        then show ?thesis using MElems vr SepNext IH [of "MElems (v' # acc)" r'] lr l' by fastforce
      next
        case (SepErr e)
        then show ?thesis using MElems vr scan_sep_no_fuel [of "CHR '']''" "''array''" r] by auto
      qed
    qed
  qed
qed

section \<open>Strings: the decoder reads what the encoder writes\<close>

lemma hex_val_hex_digit: "d < 16 \<Longrightarrow> hex_val (hex_digit d) = Some d"
  by (auto simp: hex_val_def hex_digit_def Let_def)

lemma hex4_json_hex4: "n < 256 \<Longrightarrow> hex4 (json_hex4 n @ r) = Some n"
proof -
  assume n: "n < 256"
  have z: "n div 4096 mod 16 = 0" "n div 256 mod 16 = 0" using n by simp_all
  have "(n div 16 mod 16) * 16 + n mod 16 = n" using n by simp
  then show ?thesis
    by (simp add: hex4_def json_hex4_def hex_val_hex_digit z)
qed

lemma scan_str_out:
  "scan_str b acc (concat (map json_esc_out t) @ CHR 0x22 # rest) = Inr (rev acc @ t, rest)"
proof (induction t arbitrary: acc)
  case Nil
  then show ?case by simp
next
  case (Cons c t)
  have c256: "(of_char c :: nat) < 256" by (rule nat_of_char_less_256)
  consider (q) "c = CHR 0x22 \<or> c = CHR 0x5C" | (nl) "c = CHR 0x0A" | (cr) "c = CHR 0x0D" | (tab) "c = CHR 0x09"
    | (bsp) "c = CHR 0x08" | (ff) "c = CHR 0x0C"
    | (u) "c \<notin> {CHR 0x22, CHR 0x5C, CHR 0x0A, CHR 0x0D, CHR 0x09, CHR 0x08, CHR 0x0C}"
          "(of_char c :: nat) < 32 \<or> 126 < (of_char c :: nat)"
    | (plain) "c \<notin> {CHR 0x22, CHR 0x5C, CHR 0x0A, CHR 0x0D, CHR 0x09, CHR 0x08, CHR 0x0C}"
          "\<not> ((of_char c :: nat) < 32 \<or> 126 < (of_char c :: nat))"
    by blast
  then show ?case
  proof cases
    case q
    then show ?thesis using Cons.IH [of "c # acc"] by (auto simp: json_esc_out_def json_esc_def)
  next
    case u
    let ?r = "concat (map json_esc_out t) @ CHR 0x22 # rest"
    have e: "json_esc_out c = CHR 0x5C # CHR ''u'' # json_hex4 (of_char c)"
      using u by (auto simp: json_esc_out_def)
    have h: "hex4 (json_hex4 (of_char c) @ ?r) = Some (of_char c)" by (rule hex4_json_hex4 [OF c256])
    have l: "length (json_hex4 n) = 4" for n by (simp add: json_hex4_def)
    have step: "scan_str b acc (CHR 0x5C # CHR ''u'' # (json_hex4 (of_char c) @ ?r)) = scan_str b (c # acc) ?r"
      using h c256 by (simp add: l)
    show ?thesis using Cons.IH [of "c # acc"] step by (simp add: e)
  next
    case plain
    then have "json_esc_out c = [c]" by (auto simp: json_esc_out_def)
    moreover have "c \<noteq> CHR 0x22" "c \<noteq> CHR 0x5C" "\<not> (of_char c :: nat) < 32" using plain by auto
    ultimately show ?thesis using Cons.IH [of "c # acc"] by simp
  qed (use Cons.IH in \<open>simp_all add: json_esc_out_def json_esc_def\<close>)
qed

section \<open>Integers: the number matcher on a decimal text\<close>

lemma nat_str_hd_nonzero: "k \<noteq> 0 \<Longrightarrow> hd (nat_str k) \<noteq> CHR ''0''"
proof (induction k rule: nat_str.induct)
  case (1 k)
  show ?case
  proof (cases "k < 10")
    case True
    have "digit_char k \<noteq> CHR ''0''"
    proof
      assume "digit_char k = CHR ''0''"
      then have "(of_char (digit_char k) :: nat) = 48" by simp
      then show False using of_char_digit_char [OF True] "1.prems" by simp
    qed
    then show ?thesis using True by (simp add: nat_str_unfold [of k])
  next
    case False
    then have "hd (nat_str k) = hd (nat_str (k div 10))" by (simp add: nat_str_unfold [of k] nat_str_ne)
    then show ?thesis using "1.IH" False by simp
  qed
qed

lemma stop_not_digit: "json_stop r \<Longrightarrow> r \<noteq> [] \<Longrightarrow> \<not> is_digit (hd r)"
  by (auto simp: json_stop_def is_digit_def)

lemma digits_split:
  "\<forall>c \<in> set ds. is_digit c \<Longrightarrow> json_stop r \<Longrightarrow> takeWhile is_digit (ds @ r) = ds \<and> dropWhile is_digit (ds @ r) = r"
  using stop_not_digit [of r] by (cases r) (auto simp: takeWhile_append dropWhile_append)

lemma match_nat_str:
  assumes r: "json_stop r" and sg: "sg = [] \<or> sg = ''-''"
  shows "match_int (sg @ nat_str k @ r) = Some (sg @ nat_str k, r)"
proof -
  obtain d ds where nd: "nat_str k = d # ds" using nat_str_ne [of k] by (cases "nat_str k") auto
  have dig: "is_digit d" "\<forall>c \<in> set ds. is_digit c" using nat_str_digits [of k] nd by auto
  have nz: "d = CHR ''0'' \<Longrightarrow> ds = []"
  proof -
    assume d0: "d = CHR ''0''"
    then have "k = 0" using nat_str_hd_nonzero [of k] nd by auto
    then show "ds = []" using nd by (simp add: nat_str_unfold [of 0] digit_char_def)
  qed
  have d_ne: "d \<noteq> CHR ''-''" using dig(1) by (auto simp: is_digit_def)
  have tw: "takeWhile is_digit (ds @ r) = ds" "dropWhile is_digit (ds @ r) = r"
    using digits_split [OF dig(2) r] by auto
  show ?thesis using sg d_ne dig(1) nz tw by (auto simp: match_int_def nd)
qed

lemma stop_frac_exp: "json_stop r \<Longrightarrow> match_frac r = ([], r) \<and> match_exp r = ([], r)"
  by (cases r) (auto simp: json_stop_def match_frac_def match_exp_def split: list.splits)

lemma nat_str_hd_digit: "nat_str k = d # ds \<Longrightarrow> is_digit d"
  using nat_str_digits [of k] by auto

lemma int_str_Inr:
  "int_str i = Inr t \<Longrightarrow> \<exists>sg. (sg = [] \<or> sg = ''-'') \<and> (sg = ''-'' \<longleftrightarrow> i < 0) \<and> t = sg @ nat_str (nat \<bar>i\<bar>)
     \<and> length (nat_str (nat \<bar>i\<bar>)) \<le> int_max_str_digits"
  by (auto simp: int_str_def split: if_splits)

lemma scan_scalar_int:
  assumes t: "int_str i = Inr t" and r: "json_stop rest"
  shows "scan_scalar (t @ rest) = Inr (JInt i, rest)"
proof -
  obtain sg where sg: "sg = [] \<or> sg = ''-''" "sg = ''-'' \<longleftrightarrow> i < 0" "t = sg @ nat_str (nat \<bar>i\<bar>)"
    and len: "length (nat_str (nat \<bar>i\<bar>)) \<le> int_max_str_digits"
    using int_str_Inr [OF t] by blast
  obtain d ds where nd: "nat_str (nat \<bar>i\<bar>) = d # ds" using nat_str_ne by (cases "nat_str (nat \<bar>i\<bar>)") auto
  have d: "is_digit d" by (rule nat_str_hd_digit [OF nd])
  then have dn: "d \<noteq> CHR ''n''" "d \<noteq> CHR ''t''" "d \<noteq> CHR ''f''" "d \<noteq> CHR ''N''" "d \<noteq> CHR ''I''" "d \<noteq> CHR ''-''"
    by (auto simp: is_digit_def)
  have m: "match_int (t @ rest) = Some (t, rest)" using match_nat_str [OF r sg(1)] sg(3) by simp
  have v: "int (digits_value 0 (nat_str (nat \<bar>i\<bar>))) = \<bar>i\<bar>" by (simp add: digits_value_nat_str)
  have hd_t: "hd t = CHR ''-'' \<longleftrightarrow> i < 0" using sg dn(6) by (auto simp: nd)
  have tl_t: "(if hd t = CHR ''-'' then tl t else t) = nat_str (nat \<bar>i\<bar>)" using sg dn(6) by (auto simp: nd)
  have num: "json_number t [] [] = Inl (JInt i)"
    using len v hd_t tl_t by (auto simp: json_number_def Let_def)
  have pre: "\<not> take 4 (t @ rest) = ''null'' \<and> \<not> take 4 (t @ rest) = ''true'' \<and> \<not> take 5 (t @ rest) = ''false'' \<and>
      \<not> take 3 (t @ rest) = ''NaN'' \<and> \<not> take 8 (t @ rest) = ''Infinity'' \<and> \<not> take 9 (t @ rest) = ''-Infinity''"
    using sg(1) dn by (auto simp: sg(3) nd)
  show ?thesis using pre m num stop_frac_exp [OF r] by (simp add: scan_scalar_def)
qed

section \<open>The shape of the encoder output\<close>

lemma ev_Suc:
  assumes "\<exists>N. \<forall>n\<ge>N. P n" and "\<And>n. P n \<Longrightarrow> Q (Suc n)"
  shows "\<exists>N. \<forall>n\<ge>N. Q n"
proof -
  obtain N where N: "\<forall>n\<ge>N. P n" using assms(1) by blast
  have "Q n" if "Suc N \<le> n" for n
  proof -
    have "n = Suc (n - 1)" "N \<le> n - 1" using that by auto
    then show ?thesis using N assms(2) by metis
  qed
  then show ?thesis by blast
qed

lemma ev_Suc2:
  assumes "\<exists>N. \<forall>n\<ge>N. P n" and "\<exists>N. \<forall>n\<ge>N. Q n" and "\<And>n. P n \<Longrightarrow> Q n \<Longrightarrow> R (Suc n)"
  shows "\<exists>N. \<forall>n\<ge>N. R n"
proof -
  obtain N1 N2 where "\<forall>n\<ge>N1. P n" "\<forall>n\<ge>N2. Q n" using assms(1,2) by blast
  then have "\<forall>n\<ge>max N1 N2. P n \<and> Q n" by simp
  then show ?thesis by (rule ev_Suc [OF exI]) (use assms(3) in blast)
qed

lemma json_ws_nonws [simp]: "\<not> is_json_ws c \<Longrightarrow> json_ws (c # s) = c # s"
  by (simp add: json_ws_def)

lemma json_ws_space [simp]: "json_ws (CHR '' '' # s) = json_ws s"
  by (simp add: json_ws_def is_json_ws_def)

lemma int_str_lead: "int_str i = Inr t \<Longrightarrow> \<exists>c t'. t = c # t' \<and> (c = CHR ''-'' \<or> is_digit c)"
proof -
  assume t: "int_str i = Inr t"
  obtain d ds where nd: "nat_str (nat \<bar>i\<bar>) = d # ds" using nat_str_ne by (cases "nat_str (nat \<bar>i\<bar>)") auto
  have "is_digit d" by (rule nat_str_hd_digit [OF nd])
  then show ?thesis using t by (auto simp: int_str_def nd split: if_splits)
qed

lemma dumps_lead:
  "json_dumps v = Inr t \<Longrightarrow> \<exists>c t'. t = c # t' \<and> \<not> is_json_ws c \<and> c \<noteq> CHR '']'' \<and> c \<noteq> CHR ''}''"
proof (cases v)
  case (JInt i)
  assume "json_dumps v = Inr t"
  then show ?thesis using int_str_lead [of i t] JInt by (auto simp: is_json_ws_def is_digit_def)
qed (auto simp: is_json_ws_def json_str_out_def split: sum.splits)

lemma sep_join_Cons: "sep_join (t # ts) = t @ (if ts = [] then [] else '', '' @ sep_join ts)"
  by (cases ts) auto

lemma dumps_elems_Cons:
  "dumps_elems (v # vs) = Inr ts \<Longrightarrow> \<exists>t ts'. json_dumps v = Inr t \<and> dumps_elems vs = Inr ts' \<and> ts = t # ts'"
  by (auto split: sum.splits)

lemma dumps_members_Cons:
  "dumps_members ((k, v) # kvs) = Inr ts \<Longrightarrow>
     \<exists>t ts'. json_dumps v = Inr t \<and> dumps_members kvs = Inr ts' \<and> ts = (json_str_out k @ '': '' @ t) # ts'"
  by (auto split: sum.splits)

lemma dumps_elems_Nil: "dumps_elems vs = Inr ts \<Longrightarrow> ts = [] \<longleftrightarrow> vs = []"
  by (cases vs) (auto split: sum.splits)

lemma dumps_members_Nil: "dumps_members kvs = Inr ts \<Longrightarrow> ts = [] \<longleftrightarrow> kvs = []"
  by (cases kvs) (auto split: sum.splits)

lemma elems_lead:
  "dumps_elems vs = Inr ts \<Longrightarrow> vs \<noteq> [] \<Longrightarrow> \<exists>c t'. sep_join ts = c # t' \<and> \<not> is_json_ws c \<and> c \<noteq> CHR '']'' \<and> c \<noteq> CHR ''}''"
proof -
  assume e: "dumps_elems vs = Inr ts" and ne: "vs \<noteq> []"
  then obtain v vs' where vs: "vs = v # vs'" by (cases vs) auto
  obtain t ts' where "json_dumps v = Inr t" "ts = t # ts'" using dumps_elems_Cons [OF e [unfolded vs]] by blast
  then show ?thesis using dumps_lead [of v t] by (auto simp: sep_join_Cons)
qed

lemma members_lead:
  "dumps_members kvs = Inr ts \<Longrightarrow> kvs \<noteq> [] \<Longrightarrow> \<exists>t'. sep_join ts = CHR 0x22 # t'"
proof -
  assume e: "dumps_members kvs = Inr ts" and ne: "kvs \<noteq> []"
  then obtain k v kvs' where kvs: "kvs = (k, v) # kvs'" by (cases kvs) auto
  obtain t ts' where "ts = (json_str_out k @ '': '' @ t) # ts'" using dumps_members_Cons [OF e [unfolded kvs]] by blast
  then show ?thesis by (auto simp: sep_join_Cons json_str_out_def)
qed

section \<open>The scanner on encoder output\<close>

lemma ev_all: "(\<And>n. P (Suc n)) \<Longrightarrow> \<exists>N. \<forall>n\<ge>N. P n"
  by (rule ev_Suc [OF exI [of _ 0]]) auto

lemma ev_all2: "(\<And>n. P (Suc (Suc n))) \<Longrightarrow> \<exists>N. \<forall>n\<ge>N. P n"
  by (rule ev_Suc [OF ev_all, of "\<lambda>n. P (Suc n)"]) auto

lemma ev_SucSuc:
  assumes "\<exists>N. \<forall>n\<ge>N. P n" and "\<And>n. P n \<Longrightarrow> Q (Suc (Suc n))"
  shows "\<exists>N. \<forall>n\<ge>N. Q n"
  by (rule ev_Suc [OF ev_Suc [OF assms(1)], of _ Q]) (use assms(2) in auto)

lemma dumps_ws: "json_dumps v = Inr t \<Longrightarrow> json_ws (t @ r) = t @ r"
  using dumps_lead [of v t] by auto

lemma scan_key_out:
  "json_ws (t @ r) = t @ r \<Longrightarrow> scan_key (json_str_out k @ '': '' @ t @ r) = Inr (k, t @ r)"
  using scan_str_out [of "length (json_str_out k @ '': '' @ t @ r)" "[]" k "'': '' @ t @ r"]
  by (simp add: scan_key_def json_str_out_def is_json_ws_def)

lemma sep_close: "c = CHR '']'' \<or> c = CHR ''}'' \<Longrightarrow> scan_sep c w (c # r) = SepEnd r"
  by (auto simp: scan_sep_def is_json_ws_def)

lemma sep_next:
  "\<not> is_json_ws c \<Longrightarrow> c \<noteq> close \<Longrightarrow> close \<noteq> CHR '','' \<Longrightarrow>
     scan_sep close w (CHR '','' # CHR '' '' # c # x) = SepNext (c # x)"
  by (simp add: scan_sep_def is_json_ws_def)

lemma scan_json_str_out: "scan (Suc n) MValue (json_str_out s @ rest) = Inr (JStr s, rest)"
  using scan_str_out [of "length (json_str_out s @ rest)" "[]" s rest] by (simp add: json_str_out_def)

lemma scan_dumps:
  "json_dumps v = Inr t \<Longrightarrow> json_stop rest \<Longrightarrow> \<exists>N. \<forall>n\<ge>N. scan n MValue (t @ rest) = Inr (v, rest)"
  "dumps_elems vs = Inr ts \<Longrightarrow> vs \<noteq> [] \<Longrightarrow>
     \<exists>N. \<forall>n\<ge>N. scan n (MElems acc) (sep_join ts @ CHR '']'' # rest) = Inr (JArr (rev acc @ vs), rest)"
  "dumps_members kvs = Inr ts \<Longrightarrow> kvs \<noteq> [] \<Longrightarrow>
     \<exists>N. \<forall>n\<ge>N. scan n (MMembers macc) (sep_join ts @ CHR ''}'' # rest) = Inr (JObj (rev macc @ kvs), rest)"
proof (induction v and vs and kvs arbitrary: t rest and ts acc rest and ts macc rest
    rule: json_dumps_dumps_elems_dumps_members.induct)
  case 1
  then have t: "t = ''null''" by simp
  show ?case unfolding t by (intro ev_all) (simp add: scan_scalar_def)
next
  case (2 b)
  then have t: "t = (if b then ''true'' else ''false'')" by simp
  show ?case unfolding t by (intro ev_all) (simp add: scan_scalar_def)
next
  case (3 i)
  obtain c t' where "t = c # t'" "c = CHR ''-'' \<or> is_digit c" using int_str_lead [of i t] "3.prems"(1) by auto
  then show ?case
    using scan_scalar_int [of i t rest] "3.prems" by (intro ev_all) (auto simp: is_digit_def)
next
  case (4 r)
  then show ?case by simp
next
  case (5 s)
  then have t: "t = json_str_out s" by simp
  show ?case unfolding t by (intro ev_all) (rule scan_json_str_out)
next
  case (6 vs)
  then obtain ts where e: "dumps_elems vs = Inr ts" and t: "t = ''['' @ sep_join ts @ '']''"
    by (auto split: sum.splits)
  show ?case
  proof (cases "vs = []")
    case True
    then have "ts = []" using dumps_elems_Nil [OF e] by simp
    then show ?thesis unfolding t using True by (intro ev_all2) (simp add: is_json_ws_def)
  next
    case False
    obtain c t' where "sep_join ts = c # t'" "\<not> is_json_ws c" "c \<noteq> CHR '']''"
      using elems_lead [OF e False] by blast
    then show ?thesis unfolding t
      by (rule_tac ev_SucSuc [OF "6.IH" [OF e False, of "[]" rest]]) simp
  qed
next
  case (7 kvs)
  then obtain ts where e: "dumps_members kvs = Inr ts" and t: "t = ''{'' @ sep_join ts @ ''}''"
    by (auto split: sum.splits)
  show ?case
  proof (cases "kvs = []")
    case True
    then have "ts = []" using dumps_members_Nil [OF e] by simp
    then show ?thesis unfolding t using True by (intro ev_all2) (simp add: is_json_ws_def)
  next
    case False
    obtain t' where "sep_join ts = CHR 0x22 # t'" using members_lead [OF e False] by blast
    then show ?thesis unfolding t
      by (rule_tac ev_SucSuc [OF "7.IH" [OF e False, of "[]" rest]]) (simp add: is_json_ws_def)
  qed
next
  case 8
  then show ?case by simp
next
  case (9 v vs)
  obtain t ts' where d: "json_dumps v = Inr t" "dumps_elems vs = Inr ts'" "ts = t # ts'"
    using dumps_elems_Cons [OF "9.prems"(1)] by blast
  show ?case
  proof (cases "vs = []")
    case True
    then have "ts = [t]" using d dumps_elems_Nil [OF d(2)] by simp
    moreover have "json_stop (CHR '']'' # rest)" by (simp add: json_stop_def)
    ultimately show ?thesis using True
      by (rule_tac ev_Suc [OF "9.IH"(1) [OF d(1)]]) (auto simp: sep_close)
  next
    case False
    let ?x = "sep_join ts' @ CHR '']'' # rest"
    obtain c t' where c: "sep_join ts' = c # t'" "\<not> is_json_ws c" "c \<noteq> CHR '']''"
      using elems_lead [OF d(2) False] by blast
    have "ts' \<noteq> []" using dumps_elems_Nil [OF d(2)] False by simp
    then have x: "sep_join ts @ CHR '']'' # rest = t @ '', '' @ ?x" by (simp add: d(3) sep_join_Cons)
    have "json_stop ('', '' @ ?x)" by (simp add: json_stop_def)
    note A = "9.IH"(1) [OF d(1) this] and B = "9.IH"(2) [OF d(1) d(2) False, of "v # acc" rest]
    have sep: "scan_sep (CHR '']'') ''array'' ('', '' @ ?x) = SepNext ?x" using c by (simp add: sep_next)
    show ?thesis unfolding x by (rule ev_Suc2 [OF A B]) (simp add: sep [simplified])
  qed
next
  case 10
  then show ?case by simp
next
  case (11 k v kvs)
  obtain t ts' where d: "json_dumps v = Inr t" "dumps_members kvs = Inr ts'"
    "ts = (json_str_out k @ '': '' @ t) # ts'"
    using dumps_members_Cons [OF "11.prems"(1)] by blast
  show ?case
  proof (cases "kvs = []")
    case True
    then have "ts = [json_str_out k @ '': '' @ t]" using d dumps_members_Nil [OF d(2)] by simp
    moreover have "json_stop (CHR ''}'' # rest)" by (simp add: json_stop_def)
    moreover have key: "scan_key (json_str_out k @ '': '' @ t @ CHR ''}'' # rest) = Inr (k, t @ CHR ''}'' # rest)"
      by (rule scan_key_out [OF dumps_ws [OF d(1)]])
    ultimately show ?thesis using True
      by (rule_tac ev_Suc [OF "11.IH"(1) [OF d(1)]]) (auto simp: sep_close key [simplified])
  next
    case False
    let ?x = "sep_join ts' @ CHR ''}'' # rest"
    obtain t' where c: "sep_join ts' = CHR 0x22 # t'" using members_lead [OF d(2) False] by blast
    have "ts' \<noteq> []" using dumps_members_Nil [OF d(2)] False by simp
    then have x: "sep_join ts @ CHR ''}'' # rest = json_str_out k @ '': '' @ t @ '', '' @ ?x"
      by (simp add: d(3) sep_join_Cons)
    have "json_stop ('', '' @ ?x)" by (simp add: json_stop_def)
    note A = "11.IH"(1) [OF d(1) this] and B = "11.IH"(2) [OF d(1) d(2) False, of "(k, v) # macc" rest]
    have sep: "scan_sep (CHR ''}'') ''object'' ('', '' @ ?x) = SepNext ?x" using c by (simp add: sep_next is_json_ws_def)
    have key: "scan_key (json_str_out k @ '': '' @ t @ '', '' @ ?x) = Inr (k, t @ '', '' @ ?x)"
      by (rule scan_key_out [OF dumps_ws [OF d(1)]])
    show ?thesis unfolding x by (rule ev_Suc2 [OF A B]) (simp add: sep [simplified] key [simplified])
  qed
qed

section \<open>The decoder on encoder output\<close>

lemma json_loads_scan:
  "scan (json_fuel s) MValue (json_ws s) \<noteq> Inl JFuel \<and>
   (\<forall>n\<ge>json_fuel s. scan n MValue (json_ws s) = scan (json_fuel s) MValue (json_ws s))"
proof -
  have "fuel_need MValue (json_ws s) < json_fuel s"
    using json_ws_length [of s] by (simp add: fuel_need_def json_fuel_def)
  then have nf: "scan (json_fuel s) MValue (json_ws s) \<noteq> Inl JFuel" using scan_fuel by blast
  then show ?thesis using scan_mono [OF nf] by blast
qed

lemma loads_dumps: "json_dumps v = Inr t \<Longrightarrow> json_loads t = Inr v"
proof -
  assume d: "json_dumps v = Inr t"
  obtain N where N: "\<forall>n\<ge>N. scan n MValue t = Inr (v, [])"
    using scan_dumps(1) [OF d, of "[]"] by (auto simp: json_stop_def)
  have ws: "json_ws t = t" using dumps_ws [OF d, of "[]"] by simp
  have "scan (json_fuel t) MValue t = Inr (v, [])"
    using json_loads_scan [of t] N ws by (metis max.cobounded1 max.cobounded2)
  then show ?thesis by (simp add: json_loads_def ws json_ws_def [of "[]"])
qed

lemma subscribe_text:
  "json_dumps (subscribe_msg ticker_symbol) = Inr (''{'' @ [CHR 0x22] @ ''method'' @ [CHR 0x22] @ '': '' @ [CHR 0x22] @ ''SUBSCRIBE'' @ [CHR 0x22] @ '', '' @
     [CHR 0x22] @ ''params'' @ [CHR 0x22] @ '': ['' @ [CHR 0x22] @ ''btcusdt@ticker'' @ [CHR 0x22] @ ''], '' @
     [CHR 0x22] @ ''id'' @ [CHR 0x22] @ '': 1}'')"
  by (simp add: subscribe_msg_def ticker_symbol_def json_str_out_def json_esc_out_def int_str_def int_max_str_digits_def nat_str_unfold digit_char_eval)

lemma scan_dumps_fuel:
  assumes d: "json_dumps v = Inr t" and r: "json_stop r"
  shows "scan (json_fuel (t @ r)) MValue (t @ r) = Inr (v, r)"
proof -
  obtain N where N: "\<forall>n\<ge>N. scan n MValue (t @ r) = Inr (v, r)" using scan_dumps(1) [OF d r] by blast
  have ws: "json_ws (t @ r) = t @ r" by (rule dumps_ws [OF d])
  show ?thesis using json_loads_scan [of "t @ r"] N ws by (metis max.cobounded1 max.cobounded2)
qed

lemma stop_ws: "json_stop r \<Longrightarrow> json_ws r = r"
  by (cases r) (auto simp: json_stop_def json_ws_def is_json_ws_def)

lemma loads_extra:
  assumes d: "json_dumps v = Inr t" and r: "json_stop r" "r \<noteq> []"
  shows "json_loads (t @ r) = Inl (JSONDecodeError ''Extra data'' (t @ r) (length t))"
  using scan_dumps_fuel [OF d r(1)] dumps_ws [OF d, of r] stop_ws [OF r(1)] r(2)
  by (simp add: json_loads_def)

section \<open>Properties\<close>

text \<open>
  \<open>json.loads\<close> reads back every document \<open>json.dumps\<close> writes: the
  value is the one encoded, whatever its nesting, its strings (escapes
  included) and its integers.
\<close>

theorem json_loads_dumps: "json_dumps v = Inr t \<Longrightarrow> json_loads t = Inr v"
  by (rule loads_dumps)

theorem json_loads_dumps_witness:
  "json_dumps (subscribe_msg ticker_symbol) = Inr (''{'' @ [CHR 0x22] @ ''method'' @ [CHR 0x22] @ '': '' @ [CHR 0x22] @ ''SUBSCRIBE'' @ [CHR 0x22] @ '', '' @
     [CHR 0x22] @ ''params'' @ [CHR 0x22] @ '': ['' @ [CHR 0x22] @ ''btcusdt@ticker'' @ [CHR 0x22] @ ''], '' @
     [CHR 0x22] @ ''id'' @ [CHR 0x22] @ '': 1}'') \<and>
   json_loads (''{'' @ [CHR 0x22] @ ''method'' @ [CHR 0x22] @ '': '' @ [CHR 0x22] @ ''SUBSCRIBE'' @ [CHR 0x22] @ '', '' @
     [CHR 0x22] @ ''params'' @ [CHR 0x22] @ '': ['' @ [CHR 0x22] @ ''btcusdt@ticker'' @ [CHR 0x22] @ ''], '' @
     [CHR 0x22] @ ''id'' @ [CHR 0x22] @ '': 1}'') = Inr (subscribe_msg ticker_symbol)"
  using json_loads_dumps [OF subscribe_text] subscribe_text by simp

text \<open>
  The scanner \<open>json_loads\<close> never runs out of fuel, on any input,
  and more fuel does not change its result: \<open>json_loads\<close> is the unbounded
  recursive descent of \<open>_json.c\<close>, and it returns on every input.
\<close>

theorem json_loads_total:
  "scan (json_fuel s) MValue (json_ws s) \<noteq> Inl JFuel \<and>
   (\<forall>n\<ge>json_fuel s. scan n MValue (json_ws s) = scan (json_fuel s) MValue (json_ws s))"
  by (rule json_loads_scan)

theorem json_loads_total_witness:
  "scan (json_fuel ''[1]'') MValue (json_ws ''[1]'') \<noteq> Inl JFuel \<and>
   scan 100 MValue (json_ws ''[1]'') = scan (json_fuel ''[1]'') MValue (json_ws ''[1]'')"
proof -
  have "json_fuel ''[1]'' \<le> 100" by (simp add: json_fuel_def)
  then show ?thesis using json_loads_total [of "''[1]''"] by blast
qed

text \<open>
  A document followed by a separator that belongs to no value is
  refused with \<open>"Extra data"\<close> at the position where the document ends.
\<close>

theorem json_loads_extra_data:
  "json_dumps v = Inr t \<Longrightarrow> json_stop r \<Longrightarrow> r \<noteq> [] \<Longrightarrow>
   json_loads (t @ r) = Inl (JSONDecodeError ''Extra data'' (t @ r) (length t))"
  by (rule loads_extra)

theorem json_loads_extra_data_witness:
  "json_dumps (JInt 1) = Inr ''1'' \<and> json_stop '']'' \<and> '']'' \<noteq> [] \<and>
   json_loads ''1]'' = Inl (JSONDecodeError ''Extra data'' ''1]'' 1)"
proof -
  have d: "json_dumps (JInt 1) = Inr ''1''"
    by (simp add: int_str_def int_max_str_digits_def nat_str_unfold digit_char_eval)
  have s: "json_stop '']''" by (simp add: json_stop_def)
  show ?thesis using json_loads_extra_data [OF d s] d s by simp
qed

end
