(* ===== verification/Wire.thy ===== *)
theory Wire
  imports Json Scheduler
begin

text \<open>
  The callbacks at the level of the websocket frames: \<open>on_message\<close> receives
  the text of a frame and decodes it with \<open>json.loads\<close> (\<open>src/main.py\<close>
  line 102) before the field reads the \<open>Processor\<close> theory models, and
  \<open>on_open\<close> sends the text \<open>json.dumps\<close> writes for the subscription (line
  134). The theory shows that the frame-level callbacks refine the
  value-level ones of \<open>Processor\<close> and \<open>Scheduler\<close>: a frame that encodes a
  value is handled as that value, and the subscription the server reads is
  the request the model sends.
\<close>

section \<open>Frame-level callbacks\<close>

text \<open>Lines 101-121: \<open>json.loads(message)\<close>, then the handler on the decoded value.\<close>

definition on_message_wire :: "processor \<Rightarrow> string \<Rightarrow> py_error + processor" where
  "on_message_wire p message =
     (case json_loads message of
        Inl e \<Rightarrow> Inl e
      | Inr d \<Rightarrow> on_message p d)"

text \<open>The websocket client's dispatch of a frame, as \<open>deliver\<close> does for a decoded one.\<close>

definition deliver_wire :: "sys \<Rightarrow> string \<Rightarrow> sys" where
  "deliver_wire s message =
     (case on_message_wire (proc s) message of
        Inr p' \<Rightarrow> s\<lparr>proc := p'\<rparr>
      | Inl e \<Rightarrow> s\<lparr>world := on_error (py_str_error e) (world s)\<rparr>)"

text \<open>Lines 131-136: \<open>ws.send(json.dumps(...))\<close>; the frames sent so far are \<open>out\<close>.\<close>

definition on_open_wire :: "string list \<Rightarrow> py_error + string list" where
  "on_open_wire out =
     (case json_dumps (subscribe_msg ticker_symbol) of
        Inl e \<Rightarrow> Inl e
      | Inr t \<Rightarrow> Inr (out @ [t]))"

text \<open>The text of the subscription request.\<close>

definition subscribe_frame :: string where
  "subscribe_frame =
     ''{'' @ [CHR 0x22] @ ''method'' @ [CHR 0x22] @ '': '' @ [CHR 0x22] @ ''SUBSCRIBE'' @ [CHR 0x22] @ '', '' @
     [CHR 0x22] @ ''params'' @ [CHR 0x22] @ '': ['' @ [CHR 0x22] @ ''btcusdt@ticker'' @ [CHR 0x22] @ ''], '' @
     [CHR 0x22] @ ''id'' @ [CHR 0x22] @ '': 1}''"

text \<open>A ticker frame as Binance sends it, with the two fields the handler reads.\<close>

definition ticker_frame_value :: jvalue where
  "ticker_frame_value = JObj [(''e'', JStr ''24hrTicker''), (''c'', JStr ''855.00''), (''v'', JStr ''12.50'')]"

section \<open>Lemmas\<close>

lemma wire_message: "json_loads t = Inr d \<Longrightarrow> on_message_wire p t = on_message p d"
  by (simp add: on_message_wire_def)

lemma wire_deliver: "json_loads t = Inr d \<Longrightarrow> deliver_wire s t = deliver s d"
  by (simp add: deliver_wire_def deliver_def wire_message)

lemma ticker_frame_dumps:
  "json_dumps ticker_frame_value =
     Inr (''{'' @ [CHR 0x22] @ ''e'' @ [CHR 0x22] @ '': '' @ [CHR 0x22] @ ''24hrTicker'' @ [CHR 0x22] @ '', '' @
          [CHR 0x22] @ ''c'' @ [CHR 0x22] @ '': '' @ [CHR 0x22] @ ''855.00'' @ [CHR 0x22] @ '', '' @
          [CHR 0x22] @ ''v'' @ [CHR 0x22] @ '': '' @ [CHR 0x22] @ ''12.50'' @ [CHR 0x22] @ ''}'')"
  by (simp add: ticker_frame_value_def json_str_out_def json_esc_out_def)

section \<open>Properties\<close>

text \<open>
  \<open>on_open\<close> always sends exactly one frame, the text
  \<open>{"method": "SUBSCRIBE", "params": ["btcusdt@ticker"], "id": 1}\<close>, and
  \<open>json.loads\<close> on the server's side reads it back as the request the
  value-level model sends.
\<close>

theorem on_open_wire_sends:
  "on_open_wire out = Inr (out @ [subscribe_frame]) \<and> json_loads subscribe_frame = Inr (subscribe_msg ticker_symbol)"
  using subscribe_text loads_dumps [OF subscribe_text]
  by (simp add: on_open_wire_def subscribe_frame_def)

text \<open>
  At the frame level, delivering the text \<open>json.dumps\<close> writes for a
  value is the step the value-level model takes for that value: the
  value-level \<open>deliver\<close>, and every property proved of it, is refined by
  the program that decodes frames.
\<close>

theorem deliver_wire_refines: "json_dumps d = Inr t \<Longrightarrow> deliver_wire s t = deliver s d"
  using loads_dumps wire_deliver by blast

theorem deliver_wire_refines_witness:
  "json_dumps ticker_frame_value =
     Inr (''{'' @ [CHR 0x22] @ ''e'' @ [CHR 0x22] @ '': '' @ [CHR 0x22] @ ''24hrTicker'' @ [CHR 0x22] @ '', '' @
          [CHR 0x22] @ ''c'' @ [CHR 0x22] @ '': '' @ [CHR 0x22] @ ''855.00'' @ [CHR 0x22] @ '', '' @
          [CHR 0x22] @ ''v'' @ [CHR 0x22] @ '': '' @ [CHR 0x22] @ ''12.50'' @ [CHR 0x22] @ ''}'') \<and>
   deliver_wire boot
     (''{'' @ [CHR 0x22] @ ''e'' @ [CHR 0x22] @ '': '' @ [CHR 0x22] @ ''24hrTicker'' @ [CHR 0x22] @ '', '' @
      [CHR 0x22] @ ''c'' @ [CHR 0x22] @ '': '' @ [CHR 0x22] @ ''855.00'' @ [CHR 0x22] @ '', '' @
      [CHR 0x22] @ ''v'' @ [CHR 0x22] @ '': '' @ [CHR 0x22] @ ''12.50'' @ [CHR 0x22] @ ''}'') =
   deliver boot ticker_frame_value"
  using deliver_wire_refines [OF ticker_frame_dumps] ticker_frame_dumps by simp

end
