(* ===== verification/Clock.thy ===== *)
theory Clock
  imports Message
begin

text \<open>
  The wall-clock text of the reports and of the start banner:
  \<open>datetime.now().strftime("%m-%d-%Y %H:%M:%S")\<close> (\<open>src/main.py\<close> lines
  79 and 151). \<open>datetime.now()\<close> reads the POSIX clock and breaks the local
  time into fields; the date is the proleptic Gregorian calendar of CPython's
  \<open>datetime\<close> module, modelled from its reference implementation
  (\<open>_is_leap\<close>, \<open>_days_before_year\<close>, \<open>_days_in_month\<close>,
  \<open>_days_before_month\<close>, \<open>_ymd2ord\<close>, \<open>_ord2ymd\<close>, the tables
  \<open>_DAYS_IN_MONTH\<close> and \<open>_DAYS_BEFORE_MONTH\<close>), with Python's floor
  division as \<open>div\<close> on \<open>int\<close>. The local zone is the offset from UTC in
  force at each second (a function, so daylight-saving changes are allowed);
  microseconds are dropped, as the format has no \<open>%f\<close>. Proved:
  \<open>_ord2ymd\<close> inverts \<open>_ymd2ord\<close>, so the fields of a reading are a valid
  date and time, and a timestamp consists of digits, \<open>-\<close>, a space and
  \<open>:\<close> only.
\<close>

section \<open>The calendar of datetime\<close>

definition DAYS_IN_MONTH :: "int list" where
  "DAYS_IN_MONTH = [-1, 31, 28, 31, 30, 31, 30, 31, 31, 30, 31, 30, 31]"

primrec running_sums :: "int \<Rightarrow> int list \<Rightarrow> int list" where
  "running_sums dbm [] = []"
| "running_sums dbm (d # ds) = dbm # running_sums (dbm + d) ds"

definition DAYS_BEFORE_MONTH :: "int list" where
  "DAYS_BEFORE_MONTH = -1 # running_sums 0 (tl DAYS_IN_MONTH)"

definition is_leap :: "int \<Rightarrow> bool" where
  "is_leap year \<longleftrightarrow> year mod 4 = 0 \<and> (year mod 100 \<noteq> 0 \<or> year mod 400 = 0)"

definition days_before_year :: "int \<Rightarrow> int" where
  "days_before_year year = (let y = year - 1 in y * 365 + y div 4 - y div 100 + y div 400)"

definition days_in_month :: "int \<Rightarrow> int \<Rightarrow> int" where
  "days_in_month year month = (if month = 2 \<and> is_leap year then 29 else DAYS_IN_MONTH ! nat month)"

definition days_before_month :: "int \<Rightarrow> int \<Rightarrow> int" where
  "days_before_month year month = DAYS_BEFORE_MONTH ! nat month + (if month > 2 \<and> is_leap year then 1 else 0)"

definition ymd2ord :: "int \<Rightarrow> int \<Rightarrow> int \<Rightarrow> int" where
  "ymd2ord year month day = days_before_year year + days_before_month year month + day"

definition valid_ymd :: "int \<Rightarrow> int \<Rightarrow> int \<Rightarrow> bool" where
  "valid_ymd year month day \<longleftrightarrow> 1 \<le> month \<and> month \<le> 12 \<and> 1 \<le> day \<and> day \<le> days_in_month year month"

text \<open>The month and day of the day \<open>n\<close> of a year (counted from 0).\<close>

definition month_day :: "bool \<Rightarrow> int \<Rightarrow> int \<times> int" where
  "month_day leapyear n =
     (let month = (n + 50) div 32;
          preceding = DAYS_BEFORE_MONTH ! nat month + (if month > 2 \<and> leapyear then 1 else 0) in
      if preceding > n then
        (let month = month - 1;
             preceding = preceding - (DAYS_IN_MONTH ! nat month + (if month = 2 \<and> leapyear then 1 else 0)) in
         (month, n - preceding + 1))
      else (month, n - preceding + 1))"

definition ord2ymd :: "int \<Rightarrow> int \<times> int \<times> int" where
  "ord2ymd n0 =
     (let n = n0 - 1;
          n400 = n div 146097; n = n mod 146097;
          year = n400 * 400 + 1;
          n100 = n div 36524; n = n mod 36524;
          n4 = n div 1461; n = n mod 1461;
          n1 = n div 365; n = n mod 365;
          year = year + n100 * 100 + n4 * 4 + n1 in
      if n1 = 4 \<or> n100 = 4 then (year - 1, 12, 31)
      else (case month_day (n1 = 3 \<and> (n4 \<noteq> 24 \<or> n100 = 3)) n of (month, day) \<Rightarrow> (year, month, day)))"

section \<open>datetime.now().strftime\<close>

record datetime =
  dt_year :: int
  dt_month :: int
  dt_day :: int
  dt_hour :: int
  dt_minute :: int
  dt_second :: int

text \<open>
  \<open>datetime.fromtimestamp(t)\<close> in local time: \<open>utcoffset t\<close> is the
  offset from UTC in force at the POSIX second \<open>t\<close>, as the system's zone
  rules give it (daylight saving included); then the day number of the
  local second (day 1 is 1 January of year 1; the epoch is day 719163) and
  the second of the day; a year outside 1..9999 is the \<open>ValueError\<close> of
  the constructor.
\<close>

definition int_dec :: "int \<Rightarrow> string" where
  "int_dec i = (if i < 0 then ''-'' else []) @ nat_str (nat \<bar>i\<bar>)"

definition from_timestamp :: "(int \<Rightarrow> int) \<Rightarrow> int \<Rightarrow> py_error + datetime" where
  "from_timestamp utcoffset t =
     (let s = t + utcoffset t; sec = s mod 86400 in
      case ord2ymd (s div 86400 + 719163) of (y, m, d) \<Rightarrow>
        if 1 \<le> y \<and> y \<le> 9999 then
          Inr \<lparr>dt_year = y, dt_month = m, dt_day = d, dt_hour = sec div 3600,
               dt_minute = sec mod 3600 div 60, dt_second = sec mod 60\<rparr>
        else Inl (ValueError (''year '' @ int_dec y @ '' is out of range'')))"

text \<open>\<open>%m\<close>, \<open>%d\<close>, \<open>%H\<close>, \<open>%M\<close>, \<open>%S\<close>: two digits with a leading zero; \<open>%Y\<close>: the year in decimal.\<close>

definition pad2 :: "int \<Rightarrow> string" where
  "pad2 i = [digit_char (nat i div 10), digit_char (nat i mod 10)]"

definition strftime_stamp :: "datetime \<Rightarrow> string" where
  "strftime_stamp dt =
     pad2 (dt_month dt) @ ''-'' @ pad2 (dt_day dt) @ ''-'' @ nat_str (nat (dt_year dt)) @ '' '' @
     pad2 (dt_hour dt) @ '':'' @ pad2 (dt_minute dt) @ '':'' @ pad2 (dt_second dt)"

definition now_stamp :: "(int \<Rightarrow> int) \<Rightarrow> int \<Rightarrow> py_error + string" where
  "now_stamp utcoffset t =
     (case from_timestamp utcoffset t of Inl e \<Rightarrow> Inl e | Inr dt \<Rightarrow> Inr (strftime_stamp dt))"

text \<open>Helpers for the proofs: the table entries for a leap flag, and the ranges of the fields.\<close>

definition month_start :: "bool \<Rightarrow> int \<Rightarrow> int" where
  "month_start lp m = DAYS_BEFORE_MONTH ! nat m + (if m > 2 \<and> lp then 1 else 0)"

definition month_len :: "bool \<Rightarrow> int \<Rightarrow> int" where
  "month_len lp m = (if m = 2 \<and> lp then 29 else DAYS_IN_MONTH ! nat m)"

definition md_ok :: "bool \<Rightarrow> int \<Rightarrow> bool" where
  "md_ok lp n = (case month_day lp n of (m, d) \<Rightarrow>
     1 \<le> m \<and> m \<le> 12 \<and> 1 \<le> d \<and> d \<le> (if m = 2 \<and> lp then 29 else DAYS_IN_MONTH ! nat m) \<and>
     DAYS_BEFORE_MONTH ! nat m + (if m > 2 \<and> lp then 1 else 0) + d = n + 1)"

definition dt_ok :: "datetime \<Rightarrow> bool" where
  "dt_ok dt \<longleftrightarrow> 1 \<le> dt_year dt \<and> 0 \<le> dt_month dt \<and> dt_month dt < 100 \<and> 0 \<le> dt_day dt \<and> dt_day dt < 100 \<and>
     0 \<le> dt_hour dt \<and> dt_hour dt < 100 \<and> 0 \<le> dt_minute dt \<and> dt_minute dt < 100 \<and> 0 \<le> dt_second dt \<and> dt_second dt < 100"

section \<open>Lemmas\<close>

lemma tables: "DAYS_BEFORE_MONTH = [-1, 0, 31, 59, 90, 120, 151, 181, 212, 243, 273, 304, 334]"
  by (simp add: DAYS_BEFORE_MONTH_def DAYS_IN_MONTH_def)


lemma month_day_table: "list_all (md_ok True) [0..364]" "list_all (md_ok False) [0..364]"
  by code_simp+

lemma month_day_ok:
  assumes "is_leap y = lp" "0 \<le> n" "n < 365" "month_day lp n = (m, d)"
  shows "valid_ymd y m d \<and> days_before_month y m + d = n + 1"
proof -
  have "n \<in> set [0..364]" using assms(2,3) by simp
  then have "md_ok lp n" using month_day_table by (cases lp) (auto simp: list_all_iff)
  then show ?thesis using assms(1,4)
    by (simp add: md_ok_def valid_ymd_def days_in_month_def days_before_month_def)
qed

lemma div_cycle: "0 \<le> r \<Longrightarrow> r < k \<Longrightarrow> (r + q * k) div k = (q :: int)"
  by (simp add: div_pos_pos_trivial)

lemma mod_cycle: "(r + q * k) mod k = r mod (k :: int)"
  by simp

lemma leap_cycle:
  assumes "0 \<le> b" "b \<le> 3" "0 \<le> c" "c \<le> 24" "0 \<le> e" "e \<le> 3"
  shows "is_leap (400 * a + 100 * b + 4 * c + e + 1) \<longleftrightarrow> e = 3 \<and> (c \<noteq> 24 \<or> b = 3)"
proof -
  let ?Y = "400 * a + 100 * b + 4 * c + e + 1"
  have m4: "?Y mod 4 = (e + 1) mod 4" using mod_cycle [of "e + 1" "100 * a + 25 * b + c" 4] by (simp add: algebra_simps)
  have m100: "?Y mod 100 = (4 * c + e + 1) mod 100" using mod_cycle [of "4 * c + e + 1" "4 * a + b" 100] by (simp add: algebra_simps)
  have m400: "?Y mod 400 = (100 * b + 4 * c + e + 1) mod 400" using mod_cycle [of "100 * b + 4 * c + e + 1" a 400] by (simp add: algebra_simps)
  have "(e + 1) mod 4 = 0 \<longleftrightarrow> e = 3"
  proof (cases "e = 3")
    case False
    then show ?thesis using assms(5,6) by (simp add: mod_pos_pos_trivial)
  qed simp
  moreover have "(4 * c + e + 1) mod 100 = 0 \<longleftrightarrow> c = 24 \<and> e = 3"
  proof (cases "4 * c + e + 1 = 100")
    case True
    then show ?thesis using assms(3-6) by presburger
  next
    case False
    then show ?thesis using assms(3-6) by (auto simp: mod_pos_pos_trivial)
  qed
  moreover have "(100 * b + 4 * c + e + 1) mod 400 = 0 \<longleftrightarrow> b = 3 \<and> c = 24 \<and> e = 3"
  proof (cases "100 * b + 4 * c + e + 1 = 400")
    case True
    then show ?thesis using assms by presburger
  next
    case False
    then show ?thesis using assms by (auto simp: mod_pos_pos_trivial)
  qed
  ultimately show ?thesis unfolding is_leap_def m4 m100 m400 by auto
qed

lemma dby_cycle:
  assumes "0 \<le> b" "b \<le> 3" "0 \<le> c" "c \<le> 24" "0 \<le> e" "e \<le> 3"
  shows "days_before_year (400 * a + 100 * b + 4 * c + e + 1) = 146097 * a + 36524 * b + 1461 * c + 365 * e"
proof -
  let ?y = "400 * a + 100 * b + 4 * c + e"
  have "?y div 4 = 100 * a + 25 * b + c"
    using div_cycle [of e 4 "100 * a + 25 * b + c"] assms by (simp add: algebra_simps)
  moreover have "?y div 100 = 4 * a + b"
    using div_cycle [of "4 * c + e" 100 "4 * a + b"] assms by (simp add: algebra_simps)
  moreover have "?y div 400 = a"
    using div_cycle [of "100 * b + 4 * c + e" 400 a] assms by (simp add: algebra_simps)
  ultimately show ?thesis by (simp add: days_before_year_def)
qed


lemma divmod_parts:
  assumes "0 < (k :: int)"
  shows "x = k * (x div k) + x mod k \<and> 0 \<le> x mod k \<and> x mod k < k"
  using assms by simp

lemma ord2ymd_ok:
  assumes o: "ord2ymd n = (y, m, d)"
  shows "valid_ymd y m d \<and> ymd2ord y m d = n"
proof -
  define a where "a = (n - 1) div 146097"
  define r1 where "r1 = (n - 1) mod 146097"
  define b where "b = r1 div 36524"
  define r2 where "r2 = r1 mod 36524"
  define c where "c = r2 div 1461"
  define r3 where "r3 = r2 mod 1461"
  define e where "e = r3 div 365"
  define r where "r = r3 mod 365"
  have q1: "n - 1 = 146097 * a + r1" "0 \<le> r1" "r1 < 146097"
    using divmod_parts [of 146097 "n - 1"] unfolding a_def r1_def by simp_all
  have q2: "r1 = 36524 * b + r2" "0 \<le> r2" "r2 < 36524"
    using divmod_parts [of 36524 r1] unfolding b_def r2_def by simp_all
  have q3: "r2 = 1461 * c + r3" "0 \<le> r3" "r3 < 1461"
    using divmod_parts [of 1461 r2] unfolding c_def r3_def by simp_all
  have q4: "r3 = 365 * e + r" "0 \<le> r" "r < 365"
    using divmod_parts [of 365 r3] unfolding e_def r_def by simp_all
  have b: "0 \<le> b" "b \<le> 4" "b = 4 \<Longrightarrow> r2 = 0" using q1(2,3) q2 by linarith+
  have c: "0 \<le> c" "c \<le> 24" "c = 24 \<Longrightarrow> r3 \<le> 1459" using q2(2,3) q3 by linarith+
  have e: "0 \<le> e" "e \<le> 4" "e = 4 \<Longrightarrow> r = 0" "c = 24 \<Longrightarrow> e \<le> 3" using q3(2,3) q4 c(3) by linarith+
  let ?Y = "400 * a + 100 * b + 4 * c + e + 1"
  have unf: "ord2ymd n = (if e = 4 \<or> b = 4 then (?Y - 1, 12, 31)
      else case month_day (e = 3 \<and> (c \<noteq> 24 \<or> b = 3)) r of (m, d) \<Rightarrow> (?Y, m, d))"
    unfolding ord2ymd_def Let_def a_def [symmetric] r1_def [symmetric] b_def [symmetric] r2_def [symmetric]
      c_def [symmetric] r3_def [symmetric] e_def [symmetric] r_def [symmetric]
    by (simp add: algebra_simps)
  consider (b4) "b = 4" | (e4) "e = 4" "b \<le> 3" | (gen) "b \<le> 3" "e \<le> 3" using b(2) e(2) by linarith
  then show ?thesis
  proof cases
    case b4
    then have z: "r2 = 0" "c = 0" "e = 0" "r = 0" using b(3) q3 q4 c(1) e(1) by linarith+
    have ymd: "y = 400 * a + 100 * 3 + 4 * 24 + 3 + 1" "m = 12" "d = 31" using o unf b4 z by simp_all
    have "days_before_year y = 146097 * a + 36524 * 3 + 1461 * 24 + 365 * 3" unfolding ymd(1) by (rule dby_cycle) simp_all
    moreover have "is_leap y" unfolding ymd(1) by (subst leap_cycle) simp_all
    ultimately show ?thesis using q1 q2 q3 q4 b4 z
      by (simp add: ymd(2,3) valid_ymd_def ymd2ord_def days_in_month_def days_before_month_def tables DAYS_IN_MONTH_def)
  next
    case e4
    then have z: "r = 0" "c \<le> 23" using e(3) e(4) c(2) by linarith+
    have ymd: "y = 400 * a + 100 * b + 4 * c + 3 + 1" "m = 12" "d = 31" using o unf e4 by simp_all
    have "days_before_year y = 146097 * a + 36524 * b + 1461 * c + 365 * 3" unfolding ymd(1)
      by (rule dby_cycle) (use b c e4 in simp_all)
    moreover have "is_leap y" unfolding ymd(1) by (subst leap_cycle) (use b c e4 z in simp_all)
    ultimately show ?thesis using q1 q2 q3 q4 e4 z
      by (simp add: ymd(2,3) valid_ymd_def ymd2ord_def days_in_month_def days_before_month_def tables DAYS_IN_MONTH_def)
  next
    case gen
    then have ne: "\<not> (e = 4 \<or> b = 4)" by simp
    obtain m' d' where md: "month_day (e = 3 \<and> (c \<noteq> 24 \<or> b = 3)) r = (m', d')" by fastforce
    have ymd: "y = ?Y" "m = m'" "d = d'" using o unf ne md by simp_all
    have lp: "is_leap y = (e = 3 \<and> (c \<noteq> 24 \<or> b = 3))" unfolding ymd(1) by (rule leap_cycle) (use b c e gen in simp_all)
    have dby: "days_before_year y = 146097 * a + 36524 * b + 1461 * c + 365 * e" unfolding ymd(1)
      by (rule dby_cycle) (use b c e gen in simp_all)
    have "valid_ymd y m d \<and> days_before_month y m + d = r + 1"
      unfolding ymd(2,3) by (rule month_day_ok [OF lp q4(2,3) md])
    then show ?thesis using dby q1 q2 q3 q4 by (simp add: ymd2ord_def)
  qed
qed

lemma month_start_len: "days_before_month y m = month_start (is_leap y) m" "days_in_month y m = month_len (is_leap y) m"
  by (simp_all add: days_before_month_def days_in_month_def month_start_def month_len_def)

lemma month_table_order:
  "list_all (\<lambda>m. list_all (\<lambda>m'. m < m' \<longrightarrow> month_start True m + month_len True m \<le> month_start True m') [1..12]) [1..12]"
  "list_all (\<lambda>m. list_all (\<lambda>m'. m < m' \<longrightarrow> month_start False m + month_len False m \<le> month_start False m') [1..12]) [1..12]"
  by code_simp+

lemma month_table_year:
  "list_all (\<lambda>m. 0 \<le> month_start True m \<and> month_start True m + month_len True m \<le> 366) [1..12]"
  "list_all (\<lambda>m. 0 \<le> month_start False m \<and> month_start False m + month_len False m \<le> 365) [1..12]"
  by code_simp+

lemma month_len_table: "list_all (\<lambda>m. month_len True m \<le> 31 \<and> month_len False m \<le> 31) [1..12]"
  by code_simp

lemma month_table:
  "list_all (\<lambda>m. list_all (\<lambda>m'. m < m' \<longrightarrow> month_start lp m + month_len lp m \<le> month_start lp m') [1..12]) [1..12]"
  "list_all (\<lambda>m. 0 \<le> month_start lp m \<and> month_start lp m + month_len lp m \<le> 365 + (if lp then 1 else 0)) [1..12]"
  using month_table_order month_table_year by (cases lp; simp)+

lemma month_order:
  "1 \<le> m \<Longrightarrow> m < m' \<Longrightarrow> m' \<le> 12 \<Longrightarrow> days_before_month y m + days_in_month y m \<le> days_before_month y m'"
  using month_table(1) [of "is_leap y"] by (auto simp: list_all_iff month_start_len)

lemma month_in_range: "valid_ymd y m d \<Longrightarrow> m \<in> set [1..12]"
  by (simp add: valid_ymd_def)

lemma day_of_year:
  assumes v: "valid_ymd y m d"
  shows "1 \<le> days_before_month y m + d \<and> days_before_month y m + d \<le> 365 + (if is_leap y then 1 else 0)"
proof -
  have "0 \<le> month_start (is_leap y) m \<and> month_start (is_leap y) m + month_len (is_leap y) m \<le> 365 + (if is_leap y then 1 else 0)"
    using month_table(2) [of "is_leap y"] month_in_range [OF v] by (simp add: list_all_iff)
  then show ?thesis using v by (simp add: valid_ymd_def month_start_len)
qed

lemma div_step: "0 < (k :: int) \<Longrightarrow> y div k - (y - 1) div k = (if y mod k = 0 then 1 else 0)"
proof -
  assume k: "0 < k"
  have y: "y = k * (y div k) + y mod k" "0 \<le> y mod k" "y mod k < k" using divmod_parts [OF k] by blast+
  show ?thesis
  proof (cases "y mod k = 0")
    case True
    have "y - 1 = (k - 1) + (y div k - 1) * k" using y(1) True by (simp add: algebra_simps)
    then have "(y - 1) div k = ((k - 1) + (y div k - 1) * k) div k" by (rule arg_cong)
    also have "\<dots> = y div k - 1" by (rule div_cycle) (use k in auto)
    finally show ?thesis using True by simp
  next
    case False
    have "y - 1 = (y mod k - 1) + (y div k) * k" using y(1) by (simp add: algebra_simps)
    then have "(y - 1) div k = ((y mod k - 1) + (y div k) * k) div k" by (rule arg_cong)
    also have "\<dots> = y div k" by (rule div_cycle) (use False y(2,3) in auto)
    finally show ?thesis using False by simp
  qed
qed

lemma leap_dvd: "is_leap y \<longleftrightarrow> (4::int) dvd y \<and> (\<not> (100::int) dvd y \<or> (400::int) dvd y)"
  by (simp add: is_leap_def dvd_eq_mod_eq_0)

lemma dby_step: "days_before_year (y + 1) = days_before_year y + 365 + (if is_leap y then 1 else 0)"
proof -
  have d: "y div k - (y - 1) div k = (if k dvd y then 1 else 0)" if "0 < k" for k :: int
    using div_step [OF that] by (simp add: dvd_eq_mod_eq_0)
  have t1: "(400::int) dvd y \<Longrightarrow> 100 dvd y" by (erule dvd_trans [rotated]) simp
  have t2: "(100::int) dvd y \<Longrightarrow> 4 dvd y" by (erule dvd_trans [rotated]) simp
  have "days_before_year (y + 1) - days_before_year y =
      365 + (y div 4 - (y - 1) div 4) - (y div 100 - (y - 1) div 100) + (y div 400 - (y - 1) div 400)"
    by (simp add: days_before_year_def Let_def algebra_simps)
  also have "\<dots> = 365 + (if is_leap y then 1 else 0)"
    unfolding d [of 4, simplified] d [of 100, simplified] d [of 400, simplified] leap_dvd
    using t1 t2 by (cases "(400::int) dvd y"; cases "(100::int) dvd y"; cases "(4::int) dvd y") simp_all
  finally show ?thesis by simp
qed

lemma dby_mono: "y + 1 \<le> y' \<Longrightarrow> days_before_year (y + 1) \<le> days_before_year y'"
proof (induction y' rule: int_ge_induct)
  case (step i)
  then show ?case using dby_step [of i] by simp
qed simp

lemma ymd2ord_year:
  "valid_ymd y m d \<Longrightarrow> days_before_year y < ymd2ord y m d \<and> ymd2ord y m d \<le> days_before_year (y + 1)"
  using day_of_year [of y m d] dby_step [of y] by (simp add: ymd2ord_def)

lemma ymd2ord_inj:
  assumes v: "valid_ymd y m d" "valid_ymd y' m' d'" and eq: "ymd2ord y m d = ymd2ord y' m' d'"
  shows "y = y' \<and> m = m' \<and> d = d'"
proof -
  note r = ymd2ord_year [OF v(1)] ymd2ord_year [OF v(2)]
  have yy: "y = y'"
  proof (rule ccontr)
    assume "y \<noteq> y'"
    then consider (lt) "y + 1 \<le> y'" | (gt) "y' + 1 \<le> y" by linarith
    then show False
    proof cases
      case lt
      then show False using dby_mono [OF lt] r eq by linarith
    next
      case gt
      then show False using dby_mono [OF gt] r eq by linarith
    qed
  qed
  have md: "days_before_month y m + d = days_before_month y m' + d'" using eq yy by (simp add: ymd2ord_def)
  have b: "1 \<le> m" "m \<le> 12" "1 \<le> d" "d \<le> days_in_month y m" "1 \<le> m'" "m' \<le> 12" "1 \<le> d'" "d' \<le> days_in_month y m'"
    using v yy by (simp_all add: valid_ymd_def)
  have mm: "m = m'"
  proof (rule ccontr)
    assume "m \<noteq> m'"
    then consider (lt) "m < m'" | (gt) "m' < m" by linarith
    then show False
    proof cases
      case lt
      then show False using month_order [OF b(1) lt b(6), of y] b md by linarith
    next
      case gt
      then show False using month_order [OF b(5) gt b(2), of y] b md by linarith
    qed
  qed
  then show ?thesis using yy md by simp
qed

lemma ord2ymd_iff: "ord2ymd n = (y, m, d) \<longleftrightarrow> valid_ymd y m d \<and> ymd2ord y m d = n"
proof
  assume "valid_ymd y m d \<and> ymd2ord y m d = n"
  moreover obtain y' m' d' where o: "ord2ymd n = (y', m', d')" by (cases "ord2ymd n") auto
  ultimately show "ord2ymd n = (y, m, d)" using ord2ymd_ok [OF o] ymd2ord_inj [of y m d y' m' d'] by auto
qed (rule ord2ymd_ok)

lemma valid_day_le: "valid_ymd y m d \<Longrightarrow> d \<le> 31"
proof -
  assume v: "valid_ymd y m d"
  have "month_len True m \<le> 31 \<and> month_len False m \<le> 31"
    using month_len_table month_in_range [OF v] by (simp add: list_all_iff)
  then show ?thesis using v by (cases "is_leap y") (auto simp: valid_ymd_def month_start_len)
qed

lemma ord2ymd_inj: "ord2ymd n = ord2ymd n' \<Longrightarrow> n = n'"
  by (metis ord2ymd_iff prod_cases3)

lemma from_timestamp_Inr:
  assumes "from_timestamp tz t = Inr dt"
  shows "dt_ok dt \<and> ord2ymd ((t + tz t) div 86400 + 719163) = (dt_year dt, dt_month dt, dt_day dt) \<and>
    dt_hour dt * 3600 + dt_minute dt * 60 + dt_second dt = (t + tz t) mod 86400"
proof -
  obtain y m d where o: "ord2ymd ((t + tz t) div 86400 + 719163) = (y, m, d)" by (cases "ord2ymd ((t + tz t) div 86400 + 719163)") auto
  let ?sec = "(t + tz t) mod 86400"
  have dt: "dt = \<lparr>dt_year = y, dt_month = m, dt_day = d, dt_hour = ?sec div 3600,
      dt_minute = ?sec mod 3600 div 60, dt_second = ?sec mod 60\<rparr>" "1 \<le> y"
    using assms o by (simp_all add: from_timestamp_def Let_def split: if_splits)
  have v: "valid_ymd y m d" using ord2ymd_ok [OF o] by simp
  have s1: "?sec mod 3600 div 60 * 60 + ?sec mod 3600 mod 60 = ?sec mod 3600" by (rule div_mult_mod_eq)
  have s2: "?sec mod 3600 mod 60 = ?sec mod 60" by (rule mod_mod_cancel) simp
  have s3: "?sec div 3600 * 3600 + ?sec mod 3600 = ?sec" by (rule div_mult_mod_eq)
  have sec: "?sec div 3600 * 3600 + ?sec mod 3600 div 60 * 60 + ?sec mod 60 = ?sec" using s1 s2 s3 by linarith
  have "0 \<le> ?sec" "?sec < 86400" by simp_all
  then have "0 \<le> ?sec div 3600" "?sec div 3600 < 100" "0 \<le> ?sec mod 3600 div 60" "?sec mod 3600 div 60 < 100"
    "0 \<le> ?sec mod 60" "?sec mod 60 < 100"
    by (simp_all add: div_pos_pos_trivial zdiv_mono1 pos_imp_zdiv_nonneg_iff)
  moreover have "1 \<le> m" "m \<le> 12" "1 \<le> d" "d \<le> 31" using v valid_day_le [OF v] by (simp_all add: valid_ymd_def)
  ultimately have "dt_ok dt" unfolding dt(1) dt_ok_def datetime.simps using dt(2) by (intro conjI; linarith)
  then show ?thesis using o sec unfolding dt(1) datetime.simps by (intro conjI) simp_all
qed

lemma now_stamp_Inr: "now_stamp tz t = Inr s \<Longrightarrow> \<exists>dt. from_timestamp tz t = Inr dt \<and> s = strftime_stamp dt"
  by (cases "from_timestamp tz t") (simp_all add: now_stamp_def)

lemma pad2_digits: "0 \<le> x \<Longrightarrow> x < 100 \<Longrightarrow> \<forall>c \<in> set (pad2 x). is_digit c"
  by (simp add: pad2_def is_digit_digit_char less_mult_imp_div_less)

text \<open>The characters of a timestamp: digits and the separators of the format.\<close>

lemma stamp_chars:
  assumes "now_stamp tz t = Inr s"
  shows "\<forall>c \<in> set s. is_digit c \<or> c = CHR ''-'' \<or> c = CHR '' '' \<or> c = CHR '':''"
proof -
  obtain dt where d: "from_timestamp tz t = Inr dt" "s = strftime_stamp dt" using now_stamp_Inr [OF assms] by blast
  have ok: "dt_ok dt" using from_timestamp_Inr [OF d(1)] by blast
  then have "\<forall>c \<in> set (pad2 (dt_month dt) @ pad2 (dt_day dt) @ pad2 (dt_hour dt) @ pad2 (dt_minute dt) @ pad2 (dt_second dt)). is_digit c"
    using pad2_digits [of "dt_month dt"] pad2_digits [of "dt_day dt"] pad2_digits [of "dt_hour dt"]
      pad2_digits [of "dt_minute dt"] pad2_digits [of "dt_second dt"]
    unfolding dt_ok_def by auto
  moreover have "\<forall>c \<in> set (nat_str (nat (dt_year dt))). is_digit c" by (rule nat_str_digits)
  ultimately show ?thesis unfolding d(2) strftime_stamp_def by auto
qed

end
