(* ===== verification/Spec2Isabelle.thy ===== *)
theory Spec2Isabelle
  imports Interleaving Csv Wire Clock
begin

text \<open>
  \<^bold>\<open>A verified model of the Binance ticker aggregator (src/main.py).\<close>

  \<^emph>\<open>The program.\<close> One class, \<open>TradeDataProcessor\<close>, holds the whole state
  (lines 8-32): the previous price and previous cumulative volume, the lists
  \<open>bigTrade\<close>, \<open>smallTrade\<close> and \<open>price\<close>, the CSV file name and the
  table of 14 report intervals. \<open>start_processing\<close> (lines 138-173) writes
  the CSV header, prints two header lines, starts one \<open>threading.Timer\<close> per
  interval and runs the websocket loop. The loop calls \<open>on_open\<close> (send the
  subscription), \<open>on_message\<close> (lines 101-123: tick normalizer and trade
  classifier), \<open>on_error\<close> and \<open>on_close\<close>; each timer calls
  \<open>calculate_and_display\<close> (lines 62-99), which reads the lists, formats the
  totals with \<open>format_trade_value\<close> (lines 34-38), prints a line and appends a
  record with \<open>write_to_csv\<close> (lines 40-60).

  \<^emph>\<open>The library.\<close>
  \<^item> \<open>Prelude\<close>: type names (\<open>pyfloat = real\<close>, labels, timestamps, CSV
    records), fact collections, Python's \<open>str.ljust\<close>, prefix and sum lemmas.
  \<^item> \<open>PyNum\<close>: the CPython built-ins the code calls, modelled from the language
    reference: \<open>round(x, 2)\<close> (ties to even) as \<open>py_round2\<close>,
    \<open>f"{x:.2f}"\<close> as \<open>fmt2\<close>, \<open>float(s)\<close> on strings as
    \<open>parse_float\<close> (whitespace, sign, digit groups with \<open>_\<close>, fraction,
    exponent, \<open>inf\<close>/\<open>nan\<close>). Proved: rounding is symmetric and within
    half a cent, and \<open>parse_float (fmt2 x) = Finite (py_round2 x)\<close>.
  \<^item> \<open>Message\<close>: decoded JSON values, Python's exceptions as the datatype
    \<open>py_error\<close>, the subscript \<open>data["c"]\<close> (\<open>py_getitem\<close>, last key
    wins) and \<open>float(...)\<close> (\<open>py_float\<close>), the subscription request.
  \<^item> \<open>Processor\<close>: the record \<open>processor\<close>, \<open>init_processor\<close>
    (\<open>__init__\<close>), \<open>normalize_volume\<close> (lines 108-111),
    \<open>commit_trade\<close> (lines 113-120), \<open>on_tick\<close> and \<open>on_message\<close>
    (\<open>py_error + processor\<close>: every exception a branch), \<open>feed\<close> (the loop
    dropping messages whose handler raised). An abstract specification
    (\<open>trades_of\<close>, \<open>abs_big\<close>, \<open>abs_small\<close>) states what the
    accumulator promises; \<open>feed_refines\<close> proves the code implements it.
    Also: the behaviour on each branch, the invariant \<open>proc_inv\<close>, append-only
    lists, the error paths (\<open>KeyError\<close> for a missing key,
    \<open>ValueError\<close> for a bad number, \<open>TypeError\<close> for a non-dict), the
    bounds of the volume delta.
  \<^item> \<open>Reporter\<close>: an explicit output world (console lines, files as lists
    of CSV records), the report's figures as the code computes them
    (\<open>report_figures\<close>, each division by Python's \<open>/\<close>, \<open>py_truediv\<close>,
    which raises \<open>ZeroDivisionError\<close>, behind the code's guards),
    \<open>format_trade_value\<close>, \<open>format_cols\<close> (\<open>"{:<25} ..."\<close>),
    \<open>write_to_csv\<close>, \<open>calculate_and_display\<close>. Proved: no report ever
    divides by zero, the empty report, the spec's formatting examples, the
    read-back precision of the totals, bounds of the average,
    the sign of the percentage, the exact effect of a report, the column layout.
  \<^item> \<open>Scheduler\<close>: the program state \<open>sys\<close> (processor, world, clock,
    pending timers, connection, sent messages), \<open>start_processing\<close>, the
    callbacks, and \<open>sys_step\<close>, an inductive step relation with one rule per
    event: connection open, message, close, transport error, one second passing,
    a timer firing. \<open>reachable\<close> is rule-closed from start-up. The invariant
    \<open>sched_inv\<close> gives: reports come in table order and once per label; every
    timer fires eventually; no step removes anything from the accumulator.
  \<^item> \<open>Interleaving\<close>: the same program at the granularity at which CPython
    switches threads. A report is a thread (\<open>rthread\<close>) whose reads of the
    shared lists (lines 63, 64, 67, 69) are separate steps (\<open>rt_read\<close>); a
    committing \<open>on_message\<close> is two steps split after the append of line 114
    (\<open>msg_first_half\<close>, \<open>msg_second_half\<close>); \<open>fstep\<close> is the step
    relation over \<open>fsys\<close> (the atomic state, the half-done message, the
    running report threads). Proved: every atomic step is a schedule of fine
    steps (\<open>atomic_is_a_schedule\<close>, so all of \<open>Scheduler\<close>'s runs are runs
    of the threaded program), the lists still only grow, the partition equation
    holds up to the one half-done message, and a concrete reachable run writes a
    torn report (average 52.50 for prices 105 and 110).
  \<^item> \<open>Csv\<close>: the bytes \<open>csv.writer(file).writerow\<close> appends to the log
    (\<open>csv_line\<close>, \<open>csv_text\<close>: \<open>QUOTE_MINIMAL\<close>, doubled quotes, \<open>\r\n\<close>),
    and \<open>csv.reader\<close> on a file opened with \<open>newline=""\<close> (\<open>csv_read\<close>: the
    file's line splitting and the state machine of CPython's \<open>_csv.c\<close>, with
    its field size limit). The world of \<open>Reporter\<close> keeps a file as its list
    of records; \<open>csv_text\<close> gives its bytes. Proved: the reader reads back
    every list of records written (round trip), reading by lines equals
    reading by characters, and the program's records are written unquoted.
  \<^item> \<open>Json\<close>: \<open>json.loads\<close> (line 102) and \<open>json.dumps\<close> (line 134) as
    CPython's \<open>_json.c\<close> runs them with the default options: a scanner
    \<open>scan\<close> over a mode (\<open>jmode\<close>: value, object, members, array,
    elements) with strings (\<open>scan_str\<close>, escapes and \<open>\uXXXX\<close>), the
    number matcher (\<open>match_int\<close>, \<open>match_frac\<close>, \<open>match_exp\<close>, the
    4300-digit limit of \<open>int\<close>), separators with the trailing-comma error,
    and \<open>json_loads\<close> turning scanner errors into \<open>JSONDecodeError\<close> with
    Python's message and position; the encoder \<open>json_dumps\<close>
    (\<open>ensure_ascii\<close>, separators \<open>", "\<close> and \<open>": "\<close>). Proved: the fuel
    \<open>json_loads\<close> gives is always enough and more changes nothing (so it is
    total), \<open>json_loads\<close> reads back every document \<open>json_dumps\<close> writes,
    and trailing separators are reported as \<open>"Extra data"\<close> at the right
    position.
  \<^item> \<open>Wire\<close>: the callbacks on frames: \<open>on_message_wire\<close> (decode, then
    \<open>on_message\<close>), \<open>deliver_wire\<close>, \<open>on_open_wire\<close> (the text sent).
    Proved: the subscription frame's exact text, read back by the server as the
    request, and that delivering the encoding of a value is the value-level
    \<open>deliver\<close> (so the theorems of \<open>Scheduler\<close> hold of decoded frames).
  \<^item> \<open>Clock\<close>: the timestamp \<open>datetime.now().strftime("%m-%d-%Y %H:%M:%S")\<close>
    of lines 79 and 151: CPython \<open>datetime\<close>'s calendar (\<open>is_leap\<close>,
    \<open>days_before_year\<close>, \<open>days_before_month\<close>, \<open>ymd2ord\<close>, and
    \<open>ord2ymd\<close> with its 400/100/4/1-year cycles and month estimate
    \<open>month_day\<close>), \<open>from_timestamp\<close> (local fields of a POSIX second,
    \<open>ValueError\<close> outside years 1..9999), \<open>strftime_stamp\<close> and
    \<open>now_stamp\<close>; the local zone is a function giving the UTC offset in
    force at each second. Proved: \<open>ord2ymd\<close> is exactly the inverse of
    \<open>ymd2ord\<close> on valid dates, so every reading has valid fields, and a
    timestamp is made of digits, \<open>-\<close>, a space and \<open>:\<close>.
  \<^item> This theory: \<open>run\<close>, the program's steps with the messages delivered
    so far (it has exactly the reachable states of \<open>sys_step\<close>), and the
    properties spanning the components: the accumulator of every run is
    \<open>feed\<close> of its delivered messages and so the abstract one, the spec's
    end-to-end scenario, the exchange's subscription acknowledgement, the
    interval table, and that every record written to the log, with a real
    clock timestamp and a table label, is an unquoted comma-separated line.

  \<^emph>\<open>Modelling choices and bounds.\<close> Python floats are exact reals: binary
  rounding (e.g. \<open>float("0.1")\<close>) is abstracted away, while the explicit
  roundings of the code (\<open>round(_, 2)\<close>, \<open>.2f\<close>) are modelled exactly with
  ties to even. Strings are lists of 8-bit characters; \<open>float\<close> is modelled on
  ASCII input (non-ASCII digits and spaces, which Python also accepts, are not).
  Messages Python reads as \<open>inf\<close>/\<open>nan\<close> yield \<open>NonFiniteValue\<close> and are not
  delivered by \<open>sys_step\<close>. Time is whole seconds: a timer fires at its delay
  and no second passes while one is due; in \<open>Scheduler\<close> the wall clock's
  text is an input of the timer step, and \<open>Clock\<close> models how
  \<open>datetime.now().strftime\<close> produces it (a POSIX second and the zone's
  UTC offset at that second). In \<open>Scheduler\<close> each callback and each report is
  atomic; \<open>Interleaving\<close> refines this: the GIL makes each C builtin call
  (\<open>sum\<close>, \<open>len\<close>, \<open>list.append\<close>, \<open>print\<close>, one \<open>writerow\<close>)
  atomic, and the model switches threads only between those calls, which is
  enough to exhibit the torn read; finer switches (inside the arithmetic of one
  statement) change no shared list and are not modelled. The one function with
  fuel is the JSON scanner \<open>scan\<close>: \<open>json_loads\<close> gives it three steps
  per character plus three (\<open>json_fuel\<close>); every step of a nested value
  consumes a character or enters a mode that does, so this is always enough
  (\<open>scan_fuel\<close>) and any more fuel gives the same result (\<open>scan_mono\<close>).
  Every other function is structurally recursive or has a measure, the loop is
  a relation, and liveness is proved by exhibiting the run.

  \<^emph>\<open>Not modelled.\<close> Of the clock: the contents of the system time-zone
  database (the offset function is a parameter, any rules are allowed), clock
  readings beyond the platform's \<open>time_t\<close> (an \<open>OverflowError\<close> in Python),
  and the zero padding of \<open>%Y\<close> below year 1000, which depends on the C
  library (the model writes the year unpadded, as glibc does). Of \<open>json\<close>: Python's recursion limit on deep
  nesting (the model has none), \<open>float.__repr__\<close> in \<open>json.dumps\<close> (the
  program never encodes a float; the model refuses one), characters beyond 8
  bits (a \<open>\uXXXX\<close> escape above \<open>00ff\<close> and surrogate pairs are an
  \<open>Unrepresentable\<close> error), the byte-order-mark check. The \<open>Scheduler\<close>
  steps take messages decoded; \<open>Wire\<close> relates them to frames. The websocket transport and handshake (library I/O), the
  \<open>websocket-client\<close> version-specific callback arities, file system
  failures, and the traceback a timer thread would print to standard error
  if a report raised (the world holds standard output and the files; no
  report raises). The CSV reader's \<open>strict\<close>, \<open>escapechar\<close> and
  \<open>skipinitialspace\<close> options are at their defaults and not modelled.

  \<^emph>\<open>Plan for the next sittings.\<close> The spec's alternative (windowed, resetting) report design
  as a second refinement target and the precise divergence from it.
\<close>

section \<open>Definitions\<close>

text \<open>The message sequence of the spec's end-to-end scenario.\<close>

definition scenario_msgs :: "jvalue list" where
  "scenario_msgs =
     [ticker ''100'' ''10'', ticker ''105'' ''15'', ticker ''105'' ''20'', ticker ''110'' ''12'']"

text \<open>
  The running program with the messages it has delivered so far: one rule per
  event of \<open>sys_step\<close>, the message rule recording the message. A
  message is delivered to \<open>on_message\<close> in the order it arrives
  (\<open>run_forever\<close>, line 173).
\<close>

inductive run :: "jvalue list \<Rightarrow> sys \<Rightarrow> bool" where
  start: "run [] (start_processing init_processor now w)"
| open_conn: "run ds s \<Longrightarrow> conn s = Connecting \<Longrightarrow>
    run ds (s\<lparr>conn := Open, sent := on_open (sent s)\<rparr>)"
| message: "run ds s \<Longrightarrow> conn s = Open \<Longrightarrow> \<forall>x. on_message (proc s) d \<noteq> Inl (NonFiniteValue x) \<Longrightarrow>
    run (ds @ [d]) (deliver s d)"
| close: "run ds s \<Longrightarrow> conn s = Open \<Longrightarrow>
    run ds (s\<lparr>conn := Closed, world := on_close (world s)\<rparr>)"
| transport_error: "run ds s \<Longrightarrow> conn s \<noteq> Closed \<Longrightarrow>
    run ds (s\<lparr>conn := Closed, world := on_error e (world s)\<rparr>)"
| tick: "run ds s \<Longrightarrow> \<forall>t \<in> set (pending s). clock s < snd t \<Longrightarrow>
    run ds (s\<lparr>clock := Suc (clock s)\<rparr>)"
| timer: "run ds s \<Longrightarrow> t \<in> set (pending s) \<Longrightarrow> snd t \<le> clock s \<Longrightarrow>
    run ds (fire s t now)"

section \<open>Lemmas\<close>

lemma feed_snoc: "feed p (ds @ [d]) = handle (feed p ds) d"
  by (simp add: feed_def)

text \<open>Every reachable processor is the result of feeding some message sequence.\<close>

lemma reachable_feed: "reachable s \<Longrightarrow> \<exists>ds. proc s = feed init_processor ds"
proof (induction rule: reachable.induct)
  case (start now w)
  have "proc (start_processing init_processor now w) = feed init_processor []"
    by (simp add: start_processing_def feed_def Let_def)
  then show ?case by blast
next
  case (step s s')
  then obtain ds where ds: "proc s = feed init_processor ds" by blast
  from step.hyps(2) show ?case
  proof cases
    case (message d)
    then have "proc s' = feed init_processor (ds @ [d])"
      by (simp add: handle_deliver feed_snoc ds)
    then show ?thesis by blast
  qed (use ds in \<open>auto simp: fire_def\<close>)
qed

lemma scenario_feed:
  "feed init_processor scenario_msgs =
     init_processor\<lparr>previous_price := Some 110, prev_v := Some 12, price := [105, 110],
                    smallTrade := [525, 880]\<rparr>"
  by (simp add: scenario_msgs_def feed_def handle_def on_message_def float_field_ticker py_float_def
      parse_eval on_tick_def commit_trade_def normalize_volume_def init_processor_def py_round2_def
      round_half_even_def big_trade_threshold_def Let_def)

text \<open>\<open>run\<close> has exactly the reachable states of \<open>sys_step\<close>.\<close>

lemma run_reachable: "reachable s \<longleftrightarrow> (\<exists>ds. run ds s)"
proof
  assume "reachable s"
  then show "\<exists>ds. run ds s"
  proof (induction rule: reachable.induct)
    case (start now w)
    then show ?case by (blast intro: run.start)
  next
    case (step s s')
    then obtain ds where r: "run ds s" by blast
    from step.hyps(2) show ?case
      by cases (use r in \<open>blast intro: run.intros\<close>)+
  qed
next
  assume "\<exists>ds. run ds s"
  then obtain ds where "run ds s" by blast
  then show "reachable s"
    by induction (blast intro: reachable.intros sys_step.intros)+
qed

lemma run_feed: "run ds s \<Longrightarrow> proc s = feed init_processor ds"
proof (induction rule: run.induct)
  case (start now w)
  then show ?case by (simp add: start_processing_def feed_def Let_def)
next
  case (message ds s d)
  then show ?case by (simp add: handle_deliver feed_snoc)
qed (simp_all add: fire_def)

lemma labels_unquoted: "(l, k) \<in> set intervals_table \<Longrightarrow> \<not> csv_quote_needed l"
  by (auto simp: intervals_table_def csv_quote_needed_def csv_special_def)

lemma stamp_unquoted: "now_stamp zone u = Inr t \<Longrightarrow> \<not> csv_quote_needed t"
  using stamp_chars [of zone u t] by (auto simp: csv_quote_needed_def list_ex_iff csv_special_def is_digit_def)

section \<open>Properties spanning the components\<close>

text \<open>
  C9: The spec's end-to-end scenario as the code runs it:
  ticks (100, 10), (105, 15), (105, 20), (110, 12) commit two small trades,
  105 * 5 = 525 and 110 * |20 - 12| = 880 (the repeated price still moves the
  volume baseline to 20), and a report then shows big total 0.00, small total
  1405.00, average price 107.50 and change 2.33%, with current price 110.
\<close>

theorem end_to_end_scenario:
  "bigTrade (feed init_processor scenario_msgs) = [] \<and>
   smallTrade (feed init_processor scenario_msgs) = [525, 880] \<and>
   price (feed init_processor scenario_msgs) = [105, 110] \<and>
   current_price (feed init_processor scenario_msgs) = 110 \<and>
   average_price (feed init_processor scenario_msgs) = 107.5 \<and>
   drop 2 (report_fields (feed init_processor scenario_msgs) l t) =
     [''0.00'', ''1405.00'', ''107.50'', ''2.33%'']"
proof -
  let ?p = "feed init_processor scenario_msgs"
  have cur: "current_price ?p = 110" by (simp add: scenario_feed current_price_def)
  have avg: "average_price ?p = 107.5" by (simp add: scenario_feed average_price_def)
  have pct: "percentage ?p = 100 / 43"
    by (simp add: scenario_feed percentage_def average_price_def current_price_def)
  have tb: "total_big_trades ?p = 0" "total_small_trades ?p = 1405"
    unfolding total_big_trades_def total_small_trades_def scenario_feed
    by (simp_all add: init_processor_def)
  have f: "format_trade_value 0 = ''0.00''" "format_trade_value 1405 = ''1405.00''"
    "fmt2 107.5 = ''107.50''" "fmt2 (100 / 43) = ''2.33''"
    by (simp_all add: format_trade_value_def fmt2_eval)
  have r: "drop 2 (report_fields ?p l t) = [''0.00'', ''1405.00'', ''107.50'', ''2.33%'']"
    by (simp only: report_fields_def tb f avg pct) simp
  have l: "bigTrade ?p = []" "smallTrade ?p = [525, 880]" "price ?p = [105, 110]"
    unfolding scenario_feed by (simp_all add: init_processor_def)
  show ?thesis using cur avg r l by blast
qed

text \<open>
  C10: Refinement at the level of the running program: in every state the
  program reaches, whatever timers have fired and whatever connection events
  happened, the accumulator is \<open>feed\<close> of exactly the messages delivered so
  far, in their order, and so the abstract accumulator of those messages.
\<close>

theorem run_refines:
  assumes "run ds s"
  shows "proc s = feed init_processor ds \<and>
         price (proc s) = map fst (trades_of (ticks_of ds)) \<and>
         bigTrade (proc s) = abs_big (ticks_of ds) \<and>
         smallTrade (proc s) = abs_small (ticks_of ds)"
  using run_feed [OF assms] feed_init_refines [of ds] by simp

theorem run_refines_witness:
  "run [ticker ''100'' ''10''] (deliver (boot\<lparr>conn := Open, sent := on_open (sent boot)\<rparr>) (ticker ''100'' ''10'')) \<and>
   proc (deliver (boot\<lparr>conn := Open, sent := on_open (sent boot)\<rparr>) (ticker ''100'' ''10'')) =
     feed init_processor [ticker ''100'' ''10''] \<and>
   price (proc (deliver (boot\<lparr>conn := Open, sent := on_open (sent boot)\<rparr>) (ticker ''100'' ''10''))) =
     map fst (trades_of (ticks_of [ticker ''100'' ''10''])) \<and>
   bigTrade (proc (deliver (boot\<lparr>conn := Open, sent := on_open (sent boot)\<rparr>) (ticker ''100'' ''10''))) =
     abs_big (ticks_of [ticker ''100'' ''10'']) \<and>
   smallTrade (proc (deliver (boot\<lparr>conn := Open, sent := on_open (sent boot)\<rparr>) (ticker ''100'' ''10''))) =
     abs_small (ticks_of [ticker ''100'' ''10''])"
proof -
  have r0: "run [] boot" unfolding boot_def by (rule run.start)
  have r1: "run [] (boot\<lparr>conn := Open, sent := on_open (sent boot)\<rparr>)"
    by (rule run.open_conn [OF r0]) (simp add: boot_fields)
  have ok: "\<forall>x. on_message (proc (boot\<lparr>conn := Open, sent := on_open (sent boot)\<rparr>)) (ticker ''100'' ''10'') \<noteq> Inl (NonFiniteValue x)"
    by (simp add: boot_fields on_message_def float_field_ticker py_float_def parse_eval)
  have r2: "run ([] @ [ticker ''100'' ''10'']) (deliver (boot\<lparr>conn := Open, sent := on_open (sent boot)\<rparr>) (ticker ''100'' ''10''))"
    by (rule run.message [OF r1 _ ok]) simp
  then have r: "run [ticker ''100'' ''10''] (deliver (boot\<lparr>conn := Open, sent := on_open (sent boot)\<rparr>) (ticker ''100'' ''10''))"
    by simp
  show ?thesis by (rule conjI [OF r run_refines [OF r]])
qed

text \<open>
  C23: The exchange's answer to the subscription,
  \<open>{"result": null, "id": 1}\<close>, has no key \<open>"c"\<close>: delivering it makes
  \<open>on_message\<close> raise \<open>KeyError('c')\<close>, \<open>on_error\<close> prints \<open>'c'\<close>, and
  nothing else changes.
\<close>

theorem ack_is_key_error:
  "deliver s subscribe_ack = s\<lparr>world := py_print [CHR 0x27, CHR ''c'', CHR 0x27] (world s)\<rparr>"
  by (simp add: deliver_def on_message_def float_field_def py_getitem_def subscribe_ack_def
      on_error_def py_repr_str_def)

text \<open>
  The interval table: 14 entries with distinct labels in the
  order 15 m ... 30 d, delays 20, 40, ..., 280 seconds; the label \<open>30 d\<close>
  fires after 280 seconds.
\<close>

theorem interval_delays:
  "length intervals_table = 14 \<and> map snd intervals_table = map (\<lambda>i. 20 * i) [1..<15] \<and>
   distinct (map fst intervals_table) \<and> map_of intervals_table ''30 d'' = Some 280"
  by (simp add: intervals_table_def upt_rec)

text \<open>
  C27: Every record a report appends to \<open>trade_data.csv\<close> is a plain
  comma-separated line: with the timestamp \<open>datetime.now().strftime(...)\<close>
  prints (in any time zone) and a label of the interval table, no field needs
  quoting, so the line is the six fields joined by commas and ended by
  \<open>\r\n\<close>.
\<close>

theorem report_log_line:
  assumes "now_stamp zone u = Inr now" "(l, k) \<in> set intervals_table"
  shows "csv_line (report_fields p l now) =
     now @ CHR '','' # l @ CHR '','' # format_trade_value (total_big_trades p) @ CHR '','' #
     format_trade_value (total_small_trades p) @ CHR '','' # fmt2 (average_price p) @ CHR '','' #
     fmt2 (percentage p) @ ''%'' @ [CHR 0x0D, CHR 0x0A]"
  by (rule report_line [OF stamp_unquoted [OF assms(1)] labels_unquoted [OF assms(2)]])

theorem report_log_line_witness:
  "now_stamp (\<lambda>_. 0) 1794189440 = Inr ''11-09-2026 01:57:20'' \<and> (''15 m'', 20) \<in> set intervals_table \<and>
   csv_line (report_fields scenario_processor ''15 m'' ''11-09-2026 01:57:20'') =
     ''11-09-2026 01:57:20,15 m,0.00,855.00,107.50,2.33%'' @ [CHR 0x0D, CHR 0x0A]"
proof -
  have n: "now_stamp (\<lambda>_. 0) 1794189440 = Inr ''11-09-2026 01:57:20''" by code_simp
  have l: "(''15 m'', 20) \<in> set intervals_table" by (simp add: intervals_table_def)
  have v: "format_trade_value (total_big_trades scenario_processor) = ''0.00''"
    "format_trade_value (total_small_trades scenario_processor) = ''855.00''"
    "fmt2 (average_price scenario_processor) = ''107.50''"
    "fmt2 (percentage scenario_processor) = ''2.33''"
    by (simp_all add: scenario_processor_def init_processor_def total_big_trades_def total_small_trades_def
        average_price_def percentage_def current_price_def format_trade_value_def fmt2_eval)
  show ?thesis using n l report_log_line [OF n l, of scenario_processor] unfolding v by simp
qed

end
